theory Spec2Isabelle
  imports Complex_Main "HOL-Library.Log_Nat"
begin

section \<open>The query builder (\<open>build_query\<close> of \<open>sampler_api.py\<close>)\<close>

text \<open>
  Python strings are modelled as \<open>string\<close>; an argument that is either \<open>None\<close> or a string
  is a \<open>string option\<close>. Python's truth test \<open>if lang:\<close> is false for \<open>None\<close> and for the
  empty string.
\<close>

definition sep :: string where
  "sep = '' ''"

definition dquote :: char where
  "dquote = CHR 0x22"

text \<open>One statement \<open>if c: end_string += c + sep\<close>.\<close>

definition add_filter :: "string option \<Rightarrow> string \<Rightarrow> string" where
  "add_filter c end_string =
     (case c of
        None \<Rightarrow> end_string
      | Some t \<Rightarrow> if t \<noteq> [] then end_string @ t @ sep else end_string)"

text \<open>
  The loop \<open>for n, word in enumerate(stop_words)\<close>: \<open>n\<close> is the index of the word,
  \<open>len\<close> is \<open>len(stop_words)\<close>, the last argument is \<open>stop_word_string\<close>.
\<close>

fun stop_word_loop :: "nat \<Rightarrow> nat \<Rightarrow> string list \<Rightarrow> string \<Rightarrow> string" where
  "stop_word_loop n len [] stop_word_string = stop_word_string"
| "stop_word_loop n len (word # ws) stop_word_string =
     (let s1 = stop_word_string @ [dquote] @ word @ [dquote];
          n1 = n + 1
      in stop_word_loop n1 len ws (if n1 < len then s1 @ '' OR '' else s1))"

definition build_query ::
  "string list \<Rightarrow> string option \<Rightarrow> string option \<Rightarrow> string option \<Rightarrow> string option
     \<Rightarrow> string option \<Rightarrow> string \<Rightarrow> string" where
  "build_query stop_words lang place country point_radius coords query_options =
     (let stop_word_string = (if stop_words \<noteq> [] then ''('' else '''');
          end_string = (if stop_words \<noteq> [] then '')'' @ sep else sep);
          end_string = add_filter lang end_string;
          end_string = add_filter place end_string;
          end_string = add_filter country end_string;
          end_string = add_filter point_radius end_string;
          end_string = add_filter coords end_string;
          stop_word_string = stop_word_loop 0 (length stop_words) stop_words stop_word_string;
          stop_word_string = stop_word_string @ end_string;
          stop_word_string = stop_word_string @ query_options
      in stop_word_string)"

section \<open>Calendar arithmetic (Python's \<open>datetime\<close>)\<close>

text \<open>
  A naive \<open>datetime\<close> at second precision is the number of seconds since
  0001-01-01T00:00:00 in the proleptic Gregorian calendar, the library's own ordinal
  arithmetic. The functions below follow \<open>_is_leap\<close>, \<open>_days_in_month\<close>,
  \<open>_days_before_year\<close>, \<open>_days_before_month\<close>, \<open>_ymd2ord\<close> and \<open>_ord2ymd\<close>
  of the library's reference implementation.
\<close>

datatype exn = ValueError | OverflowError | AssertionError

type_synonym instant = int

type_synonym periods = "(instant \<times> instant) list"

definition is_leap :: "int \<Rightarrow> bool" where
  "is_leap year = (year mod 4 = 0 \<and> (year mod 100 \<noteq> 0 \<or> year mod 400 = 0))"

definition days_in_month :: "int \<Rightarrow> int \<Rightarrow> int" where
  "days_in_month year month =
     (if month = 2 then (if is_leap year then 29 else 28)
      else if month = 4 \<or> month = 6 \<or> month = 9 \<or> month = 11 then 30
      else 31)"

definition days_before_year :: "int \<Rightarrow> int" where
  "days_before_year year =
     (year - 1) * 365 + (year - 1) div 4 - (year - 1) div 100 + (year - 1) div 400"

definition days_before_month :: "int \<Rightarrow> int \<Rightarrow> int" where
  "days_before_month year month = sum_list (map (days_in_month year) [1..month - 1])"

definition ymd2ord :: "int \<Rightarrow> int \<Rightarrow> int \<Rightarrow> int" where
  "ymd2ord year month day = days_before_year year + days_before_month year month + day"

text \<open>The ordinal of 9999-12-31, the last day a \<open>datetime\<close> can hold.\<close>

definition max_ordinal :: int where
  "max_ordinal = 3652059"

text \<open>
  The constructor \<open>datetime(year, month, day, hour)\<close>: \<open>ValueError\<close> unless the four
  numbers name an hour of the calendar between the years 1 and 9999.
\<close>

definition datetime :: "int \<Rightarrow> int \<Rightarrow> int \<Rightarrow> int \<Rightarrow> exn + instant" where
  "datetime year month day hour =
     (if 1 \<le> year \<and> year \<le> 9999 \<and> 1 \<le> month \<and> month \<le> 12 \<and>
         1 \<le> day \<and> day \<le> days_in_month year month \<and> 0 \<le> hour \<and> hour \<le> 23
      then Inr ((ymd2ord year month day - 1) * 86400 + hour * 3600)
      else Inl ValueError)"

text \<open>\<open>dt + timedelta(seconds=delta)\<close>: \<open>OverflowError\<close> outside the years 1 to 9999.\<close>

definition plus_timedelta :: "instant \<Rightarrow> int \<Rightarrow> exn + instant" where
  "plus_timedelta dt delta =
     (if 0 \<le> dt + delta \<and> dt + delta < max_ordinal * 86400 then Inr (dt + delta)
      else Inl OverflowError)"

text \<open>\<open>_ord2ymd\<close>, the inverse of \<open>_ymd2ord\<close>, with its two tables.\<close>

definition DAYS_IN_MONTH :: "int list" where
  "DAYS_IN_MONTH = [-1, 31, 28, 31, 30, 31, 30, 31, 31, 30, 31, 30, 31]"

definition DAYS_BEFORE_MONTH :: "int list" where
  "DAYS_BEFORE_MONTH = [-1, 0, 31, 59, 90, 120, 151, 181, 212, 243, 273, 304, 334]"

text \<open>The end of \<open>_ord2ymd\<close>: month and day from the day of the year, counted from 0.\<close>

definition month_and_day :: "int \<Rightarrow> bool \<Rightarrow> int \<times> int" where
  "month_and_day n leapyear =
     (let month = (n + 50) div 32;
          preceding = DAYS_BEFORE_MONTH ! nat month + (if month > 2 \<and> leapyear then 1 else 0)
      in if preceding > n
         then (let month = month - 1;
                   preceding = preceding -
                     (DAYS_IN_MONTH ! nat month + (if month = 2 \<and> leapyear then 1 else 0))
               in (month, n - preceding + 1))
         else (month, n - preceding + 1))"

definition ord2ymd :: "int \<Rightarrow> int \<times> int \<times> int" where
  "ord2ymd n0 =
     (let n = n0 - 1;
          n400 = n div 146097; n = n mod 146097;
          year = n400 * 400 + 1;
          n100 = n div 36524; n = n mod 36524;
          n4 = n div 1461; n = n mod 1461;
          n1 = n div 365; n = n mod 365;
          year = year + n100 * 100 + n4 * 4 + n1
      in if n1 = 4 \<or> n100 = 4 then (year - 1, 12, 31)
         else (year, month_and_day n (n1 = 3 \<and> (n4 \<noteq> 24 \<or> n100 = 3))))"

text \<open>The attributes \<open>.year\<close>, \<open>.month\<close>, \<open>.day\<close> of a \<open>datetime\<close>.\<close>

definition year_of :: "instant \<Rightarrow> int" where
  "year_of dt = fst (ord2ymd (dt div 86400 + 1))"

definition month_of :: "instant \<Rightarrow> int" where
  "month_of dt = fst (snd (ord2ymd (dt div 86400 + 1)))"

definition day_of :: "instant \<Rightarrow> int" where
  "day_of dt = snd (snd (ord2ymd (dt div 86400 + 1)))"

text \<open>
  \<open>dt.strftime("%Y-%m-%dT%H:%M:%SZ")\<close>, every field padded with zeros (the year is four
  digits wide from the year 1000 on; below, the padding depends on the platform).
\<close>

definition digit :: "int \<Rightarrow> char" where
  "digit k = ''0123456789'' ! nat k"

definition pad2 :: "int \<Rightarrow> string" where
  "pad2 k = [digit (k div 10 mod 10), digit (k mod 10)]"

definition pad4 :: "int \<Rightarrow> string" where
  "pad4 k = [digit (k div 1000 mod 10), digit (k div 100 mod 10), digit (k div 10 mod 10),
             digit (k mod 10)]"

definition strftime :: "instant \<Rightarrow> string" where
  "strftime dt =
     (let secs = dt mod 86400
      in pad4 (year_of dt) @ ''-'' @ pad2 (month_of dt) @ ''-'' @ pad2 (day_of dt) @ ''T'' @
         pad2 (secs div 3600) @ '':'' @ pad2 (secs mod 3600 div 60) @ '':'' @ pad2 (secs mod 60) @
         ''Z'')"

section \<open>The period generator (\<open>utils.py\<close>)\<close>

text \<open>
  \<open>datetime.now()\<close> is the parameter \<open>now\<close>, the same at every call of a run, and a
  whole number of seconds: the program compares \<open>now\<close> with whole seconds only, and
  \<open>strftime\<close> drops the microseconds. \<open>timestamp()\<close> is taken on a host whose local time
  is UTC, so that the difference of two timestamps is the difference of the two naive
  times; the two timestamps are whole numbers of seconds, which binary64 holds exactly,
  and so is their difference. On the first day of the year 1 \<open>timestamp()\<close> raises
  \<open>ValueError\<close>, which the function below does not show: the program asserts a start
  year from 2006 on, and so do the properties proved of the generator.
\<close>

definition check_invalid_date :: "instant \<Rightarrow> int \<Rightarrow> int \<Rightarrow> int \<Rightarrow> int \<Rightarrow> bool" where
  "check_invalid_date now year month day hour =
     (case datetime year month day hour of
        Inl e \<Rightarrow> True
      | Inr dt \<Rightarrow> if now - dt < 90 * 60 then True else False)"

text \<open>
  \<open>pd.Period(f'{year}-{i}-1').daysinmonth\<close> is the number of days of the month \<open>i\<close> of
  the year, for the years that a date can hold.
\<close>

definition get_number_of_days :: "int \<Rightarrow> int \<Rightarrow> int" where
  "get_number_of_days start_year stop_year =
     sum_list (map (\<lambda>year. sum_list (map (days_in_month year) [1..12])) [start_year..stop_year])"

text \<open>Python's \<open>range(i, stop, step)\<close> for a positive step.\<close>

function py_range :: "int \<Rightarrow> int \<Rightarrow> int \<Rightarrow> int list" where
  "py_range i stop step = (if 0 < step \<and> i < stop then i # py_range (i + step) stop step else [])"
  by pat_completeness auto
termination
  by (relation "measure (\<lambda>(i, stop, step). nat (stop - i))") auto

text \<open>
  A \<open>for\<close> loop over a list. The body gets the loop variable and the flag \<open>stop\<close>, and
  returns the windows it appends to \<open>day_periods\<close>, the new value of \<open>stop\<close> and
  whether it ends in \<open>break\<close>; an exception that nothing catches ends the loop.
\<close>

fun for_loop ::
  "'a list \<Rightarrow> ('a \<Rightarrow> bool \<Rightarrow> exn + periods \<times> bool \<times> bool) \<Rightarrow> bool \<Rightarrow> exn + periods \<times> bool" where
  "for_loop [] body stop = Inr ([], stop)"
| "for_loop (x # xs) body stop =
     (case body x stop of
        Inl e \<Rightarrow> Inl e
      | Inr (ws, stop', brk) \<Rightarrow>
          if brk then Inr (ws, stop')
          else (case for_loop xs body stop' of
                  Inl e \<Rightarrow> Inl e
                | Inr (ws', stop'') \<Rightarrow> Inr (ws @ ws', stop'')))"

text \<open>A loop as the body of the loop around it: its \<open>break\<close> ends the inner loop only.\<close>

definition inner :: "(exn + periods \<times> bool) \<Rightarrow> exn + periods \<times> bool \<times> bool" where
  "inner r = (case r of Inl e \<Rightarrow> Inl e | Inr (ws, stop) \<Rightarrow> Inr (ws, stop, False))"

text \<open>The body of the innermost loop for \<open>time_range == 'hourly'\<close>.\<close>

definition hourly_body ::
  "instant \<Rightarrow> int \<Rightarrow> int \<Rightarrow> int \<Rightarrow> int \<Rightarrow> bool \<Rightarrow> exn + periods \<times> bool \<times> bool" where
  "hourly_body now year month day hour stop =
     (if check_invalid_date now year month day hour then Inr ([], stop, False)
      else case datetime year month day hour of
             Inl e \<Rightarrow> Inl e
           | Inr start_time \<Rightarrow>
               (case plus_timedelta start_time 3600 of
                  Inl e \<Rightarrow> Inl e
                | Inr end_time \<Rightarrow> Inr ([(start_time, end_time)], stop, False)))"

definition hourly :: "instant \<Rightarrow> int \<Rightarrow> int \<Rightarrow> exn + periods \<times> bool" where
  "hourly now start_year stop_year =
     for_loop [start_year..stop_year] (\<lambda>year stop. inner (
       for_loop [1..12] (\<lambda>month stop. inner (
         for_loop [1..31] (\<lambda>day stop. inner (
           for_loop [0..23] (hourly_body now year month day) stop)) stop)) stop)) False"

text \<open>
  The common end of the bodies that clip: the window is appended, and the body ends in
  \<open>break\<close> when \<open>stop\<close> is set.
\<close>

definition daily_body :: "instant \<Rightarrow> int \<Rightarrow> int \<Rightarrow> int \<Rightarrow> bool \<Rightarrow> exn + periods \<times> bool \<times> bool" where
  "daily_body now year month day stop =
     (if check_invalid_date now year month day 0 then Inr ([], stop, False)
      else case datetime year month day 0 of
             Inl e \<Rightarrow> Inl e
           | Inr start_time \<Rightarrow>
               (case plus_timedelta start_time 86400 of
                  Inl e \<Rightarrow> Inl e
                | Inr end_time \<Rightarrow>
                    if now - end_time < 0
                    then (case plus_timedelta now (- 3600) of
                            Inl e \<Rightarrow> Inl e
                          | Inr end_time \<Rightarrow> Inr ([(start_time, end_time)], True, True))
                    else Inr ([(start_time, end_time)], stop, stop)))"

definition daily :: "instant \<Rightarrow> int \<Rightarrow> int \<Rightarrow> exn + periods \<times> bool" where
  "daily now start_year stop_year =
     for_loop [start_year..stop_year] (\<lambda>year stop. inner (
       for_loop [1..12] (\<lambda>month stop. inner (
         for_loop [1..31] (daily_body now year month) stop)) stop)) False"

text \<open>
  The loop for \<open>time_range == 'weekly'\<close>: \<open>start_time\<close> is part of the state, and a
  \<open>continue\<close> leaves it as it is.
\<close>

fun weekly_loop :: "instant \<Rightarrow> int list \<Rightarrow> instant \<Rightarrow> bool \<Rightarrow> exn + periods \<times> bool" where
  "weekly_loop now [] start_time stop = Inr ([], stop)"
| "weekly_loop now (day # days) start_time stop =
     (if check_invalid_date now (year_of start_time) (month_of start_time) (day_of start_time) 0
      then weekly_loop now days start_time stop
      else case plus_timedelta start_time (7 * 86400) of
             Inl e \<Rightarrow> Inl e
           | Inr end_time \<Rightarrow>
               if now - end_time < 0 then Inr ([(start_time, now)], True)
               else if stop then Inr ([(start_time, end_time)], stop)
               else (case weekly_loop now days end_time stop of
                       Inl e \<Rightarrow> Inl e
                     | Inr (ws, stop') \<Rightarrow> Inr ((start_time, end_time) # ws, stop')))"

definition weekly :: "instant \<Rightarrow> int \<Rightarrow> int \<Rightarrow> exn + periods \<times> bool" where
  "weekly now start_year stop_year =
     (case datetime start_year 1 1 0 of
        Inl e \<Rightarrow> Inl e
      | Inr start_time \<Rightarrow>
          weekly_loop now (py_range 1 (get_number_of_days start_year stop_year) 7) start_time False)"

definition monthly_body :: "instant \<Rightarrow> int \<Rightarrow> int \<Rightarrow> bool \<Rightarrow> exn + periods \<times> bool \<times> bool" where
  "monthly_body now year month stop =
     (if check_invalid_date now year month 1 0 then Inr ([], stop, False)
      else case datetime year month 1 0 of
             Inl e \<Rightarrow> Inl e
           | Inr start_time \<Rightarrow>
               (let next_month = month + 1;
                    next_year = (if next_month > 12 then year + 1 else year);
                    next_month = (if next_month > 12 then 1 else next_month)
                in case datetime next_year next_month 1 0 of
                     Inl e \<Rightarrow> Inl e
                   | Inr next_start \<Rightarrow>
                       (case plus_timedelta next_start (- 1) of
                          Inl e \<Rightarrow> Inl e
                        | Inr end_time \<Rightarrow>
                            if now - end_time < 0 then Inr ([(start_time, now)], True, True)
                            else Inr ([(start_time, end_time)], stop, stop))))"

definition monthly :: "instant \<Rightarrow> int \<Rightarrow> int \<Rightarrow> exn + periods \<times> bool" where
  "monthly now start_year stop_year =
     for_loop [start_year..stop_year] (\<lambda>year stop. inner (
       for_loop [1..12] (monthly_body now year) stop)) False"

definition yearly_body :: "instant \<Rightarrow> int \<Rightarrow> bool \<Rightarrow> exn + periods \<times> bool \<times> bool" where
  "yearly_body now year stop =
     (if check_invalid_date now year 1 1 0 then Inr ([], stop, False)
      else case datetime year 1 1 0 of
             Inl e \<Rightarrow> Inl e
           | Inr start_time \<Rightarrow>
               (case datetime (year + 1) 1 1 0 of
                  Inl e \<Rightarrow> Inl e
                | Inr next_start \<Rightarrow>
                    (case plus_timedelta next_start (- 1) of
                       Inl e \<Rightarrow> Inl e
                     | Inr end_time \<Rightarrow>
                         if now - end_time < 0 then Inr ([(start_time, now)], True, True)
                         else Inr ([(start_time, end_time)], stop, stop))))"

definition yearly :: "instant \<Rightarrow> int \<Rightarrow> int \<Rightarrow> exn + periods \<times> bool" where
  "yearly now start_year stop_year = for_loop [start_year..stop_year] (yearly_body now) False"

text \<open>
  The list \<open>day_periods\<close> at the end of \<open>get_periods\<close>, before \<open>strftime\<close>: the five
  \<open>if\<close> statements test the same string against five different values, so at most one
  of them runs.
\<close>

definition day_periods :: "string \<Rightarrow> instant \<Rightarrow> int \<Rightarrow> int \<Rightarrow> exn + periods" where
  "day_periods time_range now start_year stop_year =
     (case (if time_range = ''hourly'' then hourly now start_year stop_year
            else if time_range = ''daily'' then daily now start_year stop_year
            else if time_range = ''weekly'' then weekly now start_year stop_year
            else if time_range = ''monthly'' then monthly now start_year stop_year
            else if time_range = ''yearly'' then yearly now start_year stop_year
            else Inr ([], False)) of
        Inl e \<Rightarrow> Inl e
      | Inr (ws, stop) \<Rightarrow> Inr ws)"

definition get_periods :: "string \<Rightarrow> instant \<Rightarrow> int \<Rightarrow> int \<Rightarrow> exn + (string \<times> string) list list" where
  "get_periods time_range now start_year stop_year =
     (case day_periods time_range now start_year stop_year of
        Inl e \<Rightarrow> Inl e
      | Inr ws \<Rightarrow>
          Inr (if length ws > 0 then [map (\<lambda>(s, e). (strftime s, strftime e)) ws] else []))"

section \<open>Binary64 arithmetic (Python's \<open>float\<close>)\<close>

text \<open>
  A finite \<open>float\<close> is a rational number. \<open>round64\<close> rounds a rational number to the
  nearest binary64 number, ties to the one with an even significand: 53 significant
  bits from the exponent \<open>-1022\<close> up, multiples of \<open>2 ^ -1074\<close> below. It is the result
  of an arithmetic operation of the hardware applied to the exact result, and the
  value of a literal and of the conversion of an \<open>int\<close>, as long as the rounded value is
  below \<open>2 ^ 1024\<close>.
\<close>

text \<open>\<open>ilog2 x\<close> is the whole part of the binary logarithm of a positive \<open>x\<close>.\<close>

definition ilog2 :: "rat \<Rightarrow> int" where
  "ilog2 x =
     (let (p, q) = quotient_of x; d = bitlen p - bitlen q
      in if x < 2 powi d then d - 1 else d)"

definition round_half_even :: "rat \<Rightarrow> int" where
  "round_half_even t =
     (let f = \<lfloor>t\<rfloor>; r = t - of_int f
      in if r < 1 / 2 then f else if 1 / 2 < r then f + 1 else if even f then f else f + 1)"

text \<open>The exponent of the binade of \<open>x\<close>, and the distance of two binary64 numbers in it.\<close>

definition exponent :: "rat \<Rightarrow> int" where
  "exponent x = max (ilog2 \<bar>x\<bar>) (- 1022)"

definition ulp :: "rat \<Rightarrow> rat" where
  "ulp x = 2 powi (exponent x - 52)"

definition round64 :: "rat \<Rightarrow> rat" where
  "round64 x = (if x = 0 then 0 else of_int (round_half_even (x / ulp x)) * ulp x)"

text \<open>
  \<open>v + 0.01\<close> for a \<open>v\<close> that is an \<open>int\<close> or a \<open>float\<close>: the literal is the binary64
  number next to a hundredth, an \<open>int\<close> is converted first (a \<open>float\<close> is its own
  conversion), and the sum is rounded. The conversion of an \<open>int\<close> raises
  \<open>OverflowError\<close> when it rounds to \<open>2 ^ 1024\<close> or more.
\<close>

definition plus_hundredth :: "rat \<Rightarrow> rat" where
  "plus_hundredth v = round64 (round64 v + round64 (1 / 100))"

definition float_overflows :: "rat \<Rightarrow> bool" where
  "float_overflows v \<longleftrightarrow> 2 ^ 1024 \<le> \<bar>round64 v\<bar>"

section \<open>The response store and the fetch loop (\<open>__main__\<close> of \<open>sampler_api.py\<close>)\<close>

text \<open>
  The output directory is an association list from file names to file contents.
  \<open>open(path, 'w')\<close> creates or truncates the file under the name it is given, and
  \<open>json.dump\<close> then writes the text of the wrapped response into it; a write that is cut
  off after \<open>k\<close> characters leaves the first \<open>k\<close> characters of the text under that name.
\<close>

type_synonym directory = "(string \<times> string) list"

definition listdir :: "directory \<Rightarrow> string list" where
  "listdir d = map fst d"

definition write_file :: "string \<Rightarrow> string \<Rightarrow> directory \<Rightarrow> directory" where
  "write_file fn txt d = (fn, txt) # filter (\<lambda>(n, c). n \<noteq> fn) d"

definition endswith :: "string \<Rightarrow> string \<Rightarrow> bool" where
  "endswith s suf = (length suf \<le> length s \<and> drop (length s - length suf) s = suf)"

text \<open>
  \<open>'%s_%s.response.json' % (start_time.replace(':', ''), end_time.replace(':', ''))\<close>
\<close>

definition response_fn :: "string \<Rightarrow> string \<Rightarrow> string" where
  "response_fn start_time end_time =
     filter (\<lambda>c. c \<noteq> CHR '':'') start_time @ ''_'' @
     filter (\<lambda>c. c \<noteq> CHR '':'') end_time @ ''.response.json''"

text \<open>The scan of the output directory at startup.\<close>

definition responses_collected :: "directory \<Rightarrow> string set" where
  "responses_collected d = set (filter (\<lambda>fn. endswith fn ''.response.json'') (listdir d))"

text \<open>
  The text \<open>json.dump(wrapped_response, jl_f, indent=4)\<close> writes; the remote payload is
  opaque and is given by its own indented rendering \<open>r\<close>.
\<close>

definition dump :: "string \<Rightarrow> string \<Rightarrow> string \<Rightarrow> string" where
  "dump start_time end_time r =
     ''{'' @ [CHR 0x0A] @
     ''    '' @ [dquote] @ ''start_time'' @ [dquote] @ '': '' @ [dquote] @ start_time @ [dquote] @ '','' @ [CHR 0x0A] @
     ''    '' @ [dquote] @ ''end_time'' @ [dquote] @ '': '' @ [dquote] @ end_time @ [dquote] @ '','' @ [CHR 0x0A] @
     ''    '' @ [dquote] @ ''response'' @ [dquote] @ '': '' @ r @ [CHR 0x0A] @
     ''}''"

text \<open>The rendering of the payload \<open>{"meta": {"result_count": 0}}\<close>, a page without tweets.\<close>

definition no_tweets :: string where
  "no_tweets =
     ''{'' @ [CHR 0x0A] @
     ''        '' @ [dquote] @ ''meta'' @ [dquote] @ '': {'' @ [CHR 0x0A] @
     ''            '' @ [dquote] @ ''result_count'' @ [dquote] @ '': 0'' @ [CHR 0x0A] @
     ''        }'' @ [CHR 0x0A] @
     ''    }''"

text \<open>What the program prints, logs and waits for, in order.\<close>

datatype event =
    Found string
  | Requesting string string
  | Writing string
  | Sleeping rat
  | Request_Failed
  | Query_Too_Long

text \<open>
  The mutable state of a run: \<open>args.sleep_duration\<close>, the counter
  \<open>n_requests_until_fail\<close>, the output directory and the trace. The sleep duration is
  the \<open>int\<close> of the command line until the failure handler adds \<open>0.01\<close> to it, and a
  \<open>float\<close> from then on; it is modelled by its value, a rational number.
\<close>

record run_state =
  sleep_duration :: rat
  n_requests_until_fail :: nat
  files :: directory
  trace :: "event list"

text \<open>
  What one pass through the body of \<open>try\<close> meets. \<open>Raises\<close>: \<open>query_twitter\<close> raises
  (a status other than 200, a transport error) or the payload has no number
  \<open>meta.result_count\<close>, so that nothing is written. \<open>Responds r\<close>: the call returns a
  payload rendered \<open>r\<close> and the file is written. \<open>Interrupted r k\<close>: the call returns,
  and the process is killed when \<open>k\<close> characters of the file have been written.
  The \<open>i\<close>-th request of a run meets the \<open>i\<close>-th outcome of a list; when the list is used up
  the run is still waiting for its next answer (\<open>Awaiting\<close>).
\<close>

datatype outcome = Raises | Responds string | Interrupted string nat

datatype status = Completed | Awaiting | Crashed | Killed

text \<open>
  \<open>time.sleep(v)\<close> raises \<open>ValueError\<close> for a negative \<open>v\<close>, and \<open>OverflowError\<close> or
  \<open>OSError\<close> for a \<open>v\<close> that is more than the platform can wait for. The greatest
  duration that the platform accepts is the parameter \<open>max_sleep\<close>; the interpreter counts
  the duration in nanoseconds in 64 bits, so \<open>max_sleep\<close> is below \<open>2 ^ 63 / 10 ^ 9\<close>
  everywhere.
\<close>

definition sleep_raises :: "rat \<Rightarrow> rat \<Rightarrow> bool" where
  "sleep_raises max_sleep v \<longleftrightarrow> v < 0 \<or> max_sleep < v"

definition requesting :: "string \<Rightarrow> string \<Rightarrow> run_state \<Rightarrow> run_state" where
  "requesting start_time end_time st = st\<lparr>trace := trace st @ [Requesting start_time end_time]\<rparr>"

definition persist :: "nat \<Rightarrow> string \<Rightarrow> string \<Rightarrow> string \<Rightarrow> run_state \<Rightarrow> run_state" where
  "persist k start_time end_time r st =
     st\<lparr>files := write_file (response_fn start_time end_time)
                    (take k (dump start_time end_time r)) (files st),
        trace := trace st @ [Writing (response_fn start_time end_time)]\<rparr>"

text \<open>The end of the \<open>try\<close> body once \<open>time.sleep(args.sleep_duration)\<close> has returned.\<close>

definition succeeded :: "run_state \<Rightarrow> run_state" where
  "succeeded st =
     st\<lparr>trace := trace st @ [Sleeping (sleep_duration st)],
        n_requests_until_fail := n_requests_until_fail st + 1\<rparr>"

text \<open>
  The handler \<open>except Exception\<close>: it logs the failure (\<open>failed\<close>), sleeps
  \<open>args.retry_duration\<close> and resets the counter (\<open>waited\<close>), and adds \<open>0.01\<close> to the sleep
  duration (\<open>backoff\<close>). Nothing catches what the handler itself raises: the run ends
  there.
\<close>

definition failed :: "run_state \<Rightarrow> run_state" where
  "failed st = st\<lparr>trace := trace st @ [Request_Failed]\<rparr>"

definition waited :: "int \<Rightarrow> run_state \<Rightarrow> run_state" where
  "waited retry_duration st =
     st\<lparr>trace := trace st @ [Sleeping (of_int retry_duration)], n_requests_until_fail := 0\<rparr>"

definition backoff :: "int \<Rightarrow> run_state \<Rightarrow> run_state" where
  "backoff retry_duration st =
     (waited retry_duration st)\<lparr>sleep_duration := plus_hundredth (sleep_duration st)\<rparr>"

text \<open>
  The loop \<open>while True\<close> for one window. After the file is written the \<open>try\<close> body
  formats the sleep duration with \<open>%f\<close>, which raises \<open>OverflowError\<close> for an \<open>int\<close> that
  no \<open>float\<close> holds, and sleeps; the handler catches what they raise like any other
  failure.
\<close>

fun retry_loop ::
  "rat \<Rightarrow> int \<Rightarrow> string \<Rightarrow> string \<Rightarrow> outcome list \<Rightarrow> run_state
     \<Rightarrow> status \<times> outcome list \<times> run_state" where
  "retry_loop max_sleep retry_duration s e [] st = (Awaiting, [], st)"
| "retry_loop max_sleep retry_duration s e (Raises # ocs) st =
     (if sleep_raises max_sleep (of_int retry_duration)
      then (Crashed, ocs, failed (requesting s e st))
      else if float_overflows (sleep_duration st)
      then (Crashed, ocs, waited retry_duration (failed (requesting s e st)))
      else retry_loop max_sleep retry_duration s e ocs
             (backoff retry_duration (failed (requesting s e st))))"
| "retry_loop max_sleep retry_duration s e (Responds r # ocs) st =
     (if float_overflows (sleep_duration st) \<or> sleep_raises max_sleep (sleep_duration st)
      then (if sleep_raises max_sleep (of_int retry_duration)
            then (Crashed, ocs,
                  failed (persist (length (dump s e r)) s e r (requesting s e st)))
            else if float_overflows (sleep_duration st)
            then (Crashed, ocs,
                  waited retry_duration
                    (failed (persist (length (dump s e r)) s e r (requesting s e st))))
            else retry_loop max_sleep retry_duration s e ocs
                   (backoff retry_duration
                      (failed (persist (length (dump s e r)) s e r (requesting s e st)))))
      else (Completed, ocs,
            succeeded (persist (length (dump s e r)) s e r (requesting s e st))))"
| "retry_loop max_sleep retry_duration s e (Interrupted r k # ocs) st =
     (Killed, ocs, persist (min k (length (dump s e r))) s e r (requesting s e st))"

text \<open>The loop \<open>for start_time, end_time in day_periods\<close>.\<close>

fun fetch_periods ::
  "rat \<Rightarrow> int \<Rightarrow> string set \<Rightarrow> (string \<times> string) list \<Rightarrow> outcome list \<Rightarrow> run_state
     \<Rightarrow> status \<times> outcome list \<times> run_state" where
  "fetch_periods max_sleep retry_duration collected [] ocs st = (Completed, ocs, st)"
| "fetch_periods max_sleep retry_duration collected ((s, e) # ps) ocs st =
     (if response_fn s e \<in> collected
      then fetch_periods max_sleep retry_duration collected ps ocs
             (st\<lparr>trace := trace st @ [Found (response_fn s e)]\<rparr>)
      else (let (x, ocs', st') = retry_loop max_sleep retry_duration s e ocs st
            in if x = Completed then fetch_periods max_sleep retry_duration collected ps ocs' st'
               else (x, ocs', st')))"

text \<open>The loop \<open>for day_periods in all_periods\<close>.\<close>

fun fetch_all ::
  "rat \<Rightarrow> int \<Rightarrow> string set \<Rightarrow> (string \<times> string) list list \<Rightarrow> outcome list \<Rightarrow> run_state
     \<Rightarrow> status \<times> outcome list \<times> run_state" where
  "fetch_all max_sleep retry_duration collected [] ocs st = (Completed, ocs, st)"
| "fetch_all max_sleep retry_duration collected (ps # rest) ocs st =
     (let (x, ocs', st') = fetch_periods max_sleep retry_duration collected ps ocs st
      in if x = Completed then fetch_all max_sleep retry_duration collected rest ocs' st'
         else (x, ocs', st'))"

text \<open>
  The program from its two assertions on: the platform's bound on \<open>time.sleep\<close>, the
  values that the command line and the stop-word file give, the clock, the output
  directory and the outcomes of the requests.
\<close>

record arguments =
  stop_words :: "string list"
  lang :: "string option"
  place :: "string option"
  country :: "string option"
  point_radius :: "string option"
  coords :: "string option"
  query_options :: string
  time_range :: string
  start_year :: int
  stop_year :: int
  arg_sleep_duration :: int
  arg_retry_duration :: int

definition initial_state :: "arguments \<Rightarrow> directory \<Rightarrow> run_state" where
  "initial_state a d =
     \<lparr>sleep_duration = of_int (arg_sleep_duration a), n_requests_until_fail = 0,
      files = d, trace = []\<rparr>"

definition main ::
  "rat \<Rightarrow> arguments \<Rightarrow> instant \<Rightarrow> directory \<Rightarrow> outcome list
     \<Rightarrow> status \<times> outcome list \<times> run_state" where
  "main max_sleep a now d ocs =
     (if \<not> start_year a \<ge> 2006 \<or> \<not> stop_year a \<ge> start_year a
      then (Crashed, ocs, initial_state a d)
      else
        (let query_string = build_query (stop_words a) (lang a) (place a) (country a)
                              (point_radius a) (coords a) (query_options a)
         in if length query_string > 1024
            then (Completed, ocs, (initial_state a d)\<lparr>trace := [Query_Too_Long]\<rparr>)
            else (case get_periods (time_range a) now (start_year a) (stop_year a) of
                    Inl e \<Rightarrow> (Crashed, ocs, initial_state a d)
                  | Inr all_periods \<Rightarrow>
                      fetch_all max_sleep (arg_retry_duration a) (responses_collected d)
                        all_periods ocs
                        (initial_state a d))))"

text \<open>Observations on a trace: the requests issued, the windows skipped, the failures handled.\<close>

fun requested :: "event list \<Rightarrow> (string \<times> string) list" where
  "requested [] = []"
| "requested (Requesting s e # tr) = (s, e) # requested tr"
| "requested (ev # tr) = requested tr"

fun found :: "event list \<Rightarrow> string list" where
  "found [] = []"
| "found (Found fn # tr) = fn # found tr"
| "found (ev # tr) = found tr"

fun written :: "event list \<Rightarrow> string list" where
  "written [] = []"
| "written (Writing fn # tr) = fn # written tr"
| "written (ev # tr) = written tr"

fun failures :: "event list \<Rightarrow> nat" where
  "failures [] = 0"
| "failures (Request_Failed # tr) = Suc (failures tr)"
| "failures (ev # tr) = failures tr"

text \<open>
  The windows of a list that a run with the startup scan \<open>collected\<close> has to fetch, and
  those it has to skip.
\<close>

definition todo :: "string set \<Rightarrow> (string \<times> string) list \<Rightarrow> (string \<times> string) list" where
  "todo collected ps = filter (\<lambda>(s, e). response_fn s e \<notin> collected) ps"

definition skipped :: "string set \<Rightarrow> (string \<times> string) list \<Rightarrow> (string \<times> string) list" where
  "skipped collected ps = filter (\<lambda>(s, e). response_fn s e \<in> collected) ps"

text \<open>\<open>repeats ns ws\<close>: the first window \<open>ns ! 0\<close> times, then the second \<open>ns ! 1\<close> times, ...\<close>

definition repeats :: "nat list \<Rightarrow> 'a list \<Rightarrow> 'a list" where
  "repeats ns ws = concat (map (\<lambda>(n, w). replicate n w) (zip ns ws))"

fun successes :: "outcome list \<Rightarrow> nat" where
  "successes [] = 0"
| "successes (Responds r # ocs) = Suc (successes ocs)"
| "successes (oc # ocs) = successes ocs"

fun uninterrupted :: "outcome list \<Rightarrow> bool" where
  "uninterrupted [] = True"
| "uninterrupted (Interrupted r k # ocs) = False"
| "uninterrupted (oc # ocs) = uninterrupted ocs"

text \<open>The requests of a list of outcomes that the remote call fails.\<close>

fun remote_failures :: "outcome list \<Rightarrow> nat" where
  "remote_failures [] = 0"
| "remote_failures (Raises # ocs) = Suc (remote_failures ocs)"
| "remote_failures (oc # ocs) = remote_failures ocs"

text \<open>
  \<open>sleeps_on max_sleep n v\<close>: \<open>time.sleep\<close> accepts the duration \<open>v\<close>, and what up to \<open>n\<close>
  failures make of it.
\<close>

definition sleeps_on :: "rat \<Rightarrow> nat \<Rightarrow> rat \<Rightarrow> bool" where
  "sleeps_on max_sleep n v \<longleftrightarrow> (\<forall>k\<le>n. \<not> sleep_raises max_sleep ((plus_hundredth ^^ k) v))"

section \<open>Predicates on lists of windows\<close>

text \<open>
  \<open>tiles g lo mid ws\<close>: the windows \<open>ws\<close> start at \<open>lo\<close>, each one is non-empty and is
  followed after \<open>g\<close> seconds by the next, and \<open>g\<close> seconds after the last one it is
  \<open>mid\<close>.
\<close>

fun tiles :: "int \<Rightarrow> int \<Rightarrow> int \<Rightarrow> periods \<Rightarrow> bool" where
  "tiles g lo mid [] = (lo = mid)"
| "tiles g lo mid ((s, e) # ws) = (s = lo \<and> s < e \<and> tiles g (e + g) mid ws)"

text \<open>
  \<open>linked lo hi L xs H\<close>: the values \<open>xs\<close> of a loop variable own the adjacent intervals
  from \<open>lo x\<close> to \<open>hi x\<close>, which together reach from \<open>L\<close> to \<open>H\<close>.
\<close>

fun linked :: "('a \<Rightarrow> int) \<Rightarrow> ('a \<Rightarrow> int) \<Rightarrow> int \<Rightarrow> 'a list \<Rightarrow> int \<Rightarrow> bool" where
  "linked lo hi L [] H = (L = H)"
| "linked lo hi L (x # xs) H = (lo x = L \<and> L \<le> hi x \<and> linked lo hi (hi x) xs H)"

text \<open>
  \<open>body_ok g now lo hi b\<close>: what a loop body \<open>b\<close> that owns the interval from \<open>lo\<close> to
  \<open>hi\<close> does. When \<open>lo\<close> is less than 90 minutes old it appends nothing and leaves the
  flag alone. Entered with the flag unset, it appends windows that tile the interval
  from \<open>lo\<close>, either up to \<open>hi\<close>, with the flag still unset and no \<open>break\<close>, or up to some
  earlier point, and then \<open>hi\<close> is less than 90 minutes old.
\<close>

definition body_ok ::
  "int \<Rightarrow> instant \<Rightarrow> int \<Rightarrow> int \<Rightarrow> (bool \<Rightarrow> exn + periods \<times> bool \<times> bool) \<Rightarrow> bool" where
  "body_ok g now lo hi b \<longleftrightarrow>
     (now - 5400 < lo \<longrightarrow> (\<forall>stop. b stop = Inr ([], stop, False))) \<and>
     (\<forall>ws stop' brk. b False = Inr (ws, stop', brk) \<longrightarrow>
        (\<exists>mid. tiles g lo mid ws \<and>
           ((mid = hi \<and> \<not> stop' \<and> \<not> brk) \<or> (now - 5400 < hi \<and> mid \<le> hi))))"

text \<open>The first second of a year and of a month.\<close>

definition year_start :: "int \<Rightarrow> instant" where
  "year_start year = days_before_year year * 86400"

definition month_start :: "int \<Rightarrow> int \<Rightarrow> instant" where
  "month_start year month = (days_before_year year + days_before_month year month) * 86400"

text \<open>The loops of the period generator below the loop over the years, for one year.\<close>

abbreviation hourly_days :: "instant \<Rightarrow> int \<Rightarrow> int \<Rightarrow> bool \<Rightarrow> exn + periods \<times> bool \<times> bool" where
  "hourly_days now y m \<equiv> (\<lambda>stop. inner (for_loop [1..31]
      (\<lambda>day stop. inner (for_loop [0..23] (hourly_body now y m day) stop)) stop))"

abbreviation hourly_months :: "instant \<Rightarrow> int \<Rightarrow> bool \<Rightarrow> exn + periods \<times> bool \<times> bool" where
  "hourly_months now y \<equiv> (\<lambda>stop. inner (for_loop [1..12] (\<lambda>month stop. hourly_days now y month stop) stop))"

abbreviation daily_days :: "instant \<Rightarrow> int \<Rightarrow> int \<Rightarrow> bool \<Rightarrow> exn + periods \<times> bool \<times> bool" where
  "daily_days now y m \<equiv> (\<lambda>stop. inner (for_loop [1..31] (daily_body now y m) stop))"

abbreviation daily_months :: "instant \<Rightarrow> int \<Rightarrow> bool \<Rightarrow> exn + periods \<times> bool \<times> bool" where
  "daily_months now y \<equiv> (\<lambda>stop. inner (for_loop [1..12] (\<lambda>month stop. daily_days now y month stop) stop))"

abbreviation monthly_months :: "instant \<Rightarrow> int \<Rightarrow> bool \<Rightarrow> exn + periods \<times> bool \<times> bool" where
  "monthly_months now y \<equiv> (\<lambda>stop. inner (for_loop [1..12] (monthly_body now y) stop))"

text \<open>An instant that a \<open>datetime\<close> can hold and that is the first second of a day.\<close>

definition midnight :: "instant \<Rightarrow> bool" where
  "midnight t \<longleftrightarrow> 0 \<le> t \<and> t < max_ordinal * 86400 \<and> t mod 86400 = 0"

text \<open>
  The days of the months as \<open>_DAYS_IN_MONTH\<close> has them, and what \<open>month_and_day\<close> has to
  return for the \<open>r\<close>-th day of a year.
\<close>

definition dim' :: "bool \<Rightarrow> int \<Rightarrow> int" where
  "dim' leap m = (if m = 2 then (if leap then 29 else 28)
      else if m = 4 \<or> m = 6 \<or> m = 9 \<or> m = 11 then 30 else 31)"

definition md_ok :: "bool \<Rightarrow> int \<Rightarrow> bool" where
  "md_ok leap r = (case month_and_day r leap of (m, d) \<Rightarrow>
       1 \<le> m \<and> m \<le> 12 \<and> 1 \<le> d \<and> d \<le> dim' leap m \<and>
       sum_list (map (dim' leap) [1..m - 1]) + d = r + 1)"

section \<open>Lemmas on binary64 arithmetic\<close>

subsection \<open>Powers of two and the binary logarithm\<close>

lemma pow2_pos [simp]: "0 < (2::rat) powi e"
  by simp

lemma pow2_le_iff: "(2::rat) powi a \<le> 2 powi b \<longleftrightarrow> a \<le> b"
  by (metis linorder_not_less one_less_numeral_iff power_int_increasing
        power_int_strict_increasing semiring_norm(76) order_le_less)

lemma pow2_less_iff: "(2::rat) powi a < 2 powi b \<longleftrightarrow> a < b"
  by (metis pow2_le_iff linorder_not_less)

lemma pow2_Suc: "(2::rat) powi (e + 1) = 2 * 2 powi e"
  by (simp add: power_int_add)

lemma bitlen_bounds_rat:
  assumes "0 < p"
  shows "2 powi (bitlen p - 1) \<le> (of_int p :: rat)" "(of_int p :: rat) < 2 powi bitlen p"
proof -
  from bitlen_bounds[OF assms] have a: "2 ^ nat (bitlen p - 1) \<le> p" and b: "p < 2 ^ nat (bitlen p)"
    by simp_all
  from assms have pos: "0 < bitlen p"
    using bitlen_eq_zero_iff[of p] bitlen_nonneg[of p] by linarith
  from a have "(of_int (2 ^ nat (bitlen p - 1)) :: rat) \<le> of_int p"
    by (simp only: of_int_le_iff)
  then show "2 powi (bitlen p - 1) \<le> (of_int p :: rat)"
    using pos by (simp add: power_int_def)
  from b have "(of_int p :: rat) < of_int (2 ^ nat (bitlen p))"
    by (simp only: of_int_less_iff)
  then show "(of_int p :: rat) < 2 powi bitlen p"
    using pos by (simp add: power_int_def)
qed

lemma ilog2_bounds:
  assumes "0 < x"
  shows "2 powi ilog2 x \<le> x" and "x < 2 powi (ilog2 x + 1)"
proof -
  obtain p q where pq: "quotient_of x = (p, q)" by (cases "quotient_of x")
  then have q: "0 < q" and x: "x = of_int p / of_int q"
    by (rule quotient_of_denom_pos, rule quotient_of_div)
  from assms x q have p: "0 < p" by (simp add: zero_less_divide_iff)
  define d where "d = bitlen p - bitlen q"
  note bp = bitlen_bounds_rat[OF p] and bq = bitlen_bounds_rat[OF q]
  have Q: "0 < (of_int q :: rat)" using q by simp
  have xq: "x * of_int q = of_int p" using x q by simp
  have "(2::rat) powi (d - 1) * of_int q < 2 powi (d - 1) * 2 powi bitlen q"
    using bq(2) by simp
  also have "\<dots> = 2 powi (bitlen p - 1)"
    by (simp add: d_def flip: power_int_add)
  also have "\<dots> \<le> x * of_int q" using bp(1) xq by simp
  finally have lo: "2 powi (d - 1) < x" using Q by simp
  have "x * of_int q < 2 powi bitlen p" using bp(2) xq by simp
  also have "\<dots> = 2 powi (d + 1) * 2 powi (bitlen q - 1)"
    by (simp add: d_def flip: power_int_add)
  also have "\<dots> \<le> 2 powi (d + 1) * of_int q" using bq(1) by simp
  finally have hi: "x < 2 powi (d + 1)" using Q by simp
  have i: "ilog2 x = (if x < 2 powi d then d - 1 else d)"
    by (simp add: ilog2_def pq d_def Let_def)
  show "2 powi ilog2 x \<le> x" using lo by (simp add: i)
  show "x < 2 powi (ilog2 x + 1)" using hi by (simp add: i)
qed

lemma ilog2_eqI:
  assumes "2 powi e \<le> x" "x < 2 powi (e + 1)"
  shows "ilog2 x = e"
proof -
  have x: "0 < x" using assms(1) pow2_pos[of e] by linarith
  note b = ilog2_bounds[OF x]
  from b(1) assms(2) have "(2::rat) powi ilog2 x < 2 powi (e + 1)" by linarith
  then have 1: "ilog2 x < e + 1" by (simp only: pow2_less_iff)
  from assms(1) b(2) have "(2::rat) powi e < 2 powi (ilog2 x + 1)" by linarith
  then have 2: "e < ilog2 x + 1" by (simp only: pow2_less_iff)
  from 1 2 show ?thesis by simp
qed

lemma ilog2_mono:
  assumes "0 < x" "x \<le> y"
  shows "ilog2 x \<le> ilog2 y"
proof -
  from assms have y: "0 < y" by simp
  from ilog2_bounds(1)[OF assms(1)] assms(2) ilog2_bounds(2)[OF y]
  have "(2::rat) powi ilog2 x < 2 powi (ilog2 y + 1)" by linarith
  then show ?thesis by (simp add: pow2_less_iff)
qed

lemma ilog2_less:
  assumes "0 < x" "x < 2 powi e"
  shows "ilog2 x < e"
proof -
  from ilog2_bounds(1)[OF assms(1)] assms(2) have "(2::rat) powi ilog2 x < 2 powi e" by linarith
  then show ?thesis by (simp only: pow2_less_iff)
qed


subsection \<open>Rounding to an integer\<close>

lemma rne_floor: "\<lfloor>t\<rfloor> \<le> round_half_even t" "round_half_even t \<le> \<lfloor>t\<rfloor> + 1"
  by (simp_all add: round_half_even_def Let_def)

lemma rne_of_int [simp]: "round_half_even (of_int k) = k"
  by (simp add: round_half_even_def)

lemma rne_ge:
  assumes "of_int k \<le> t"
  shows "k \<le> round_half_even t"
proof -
  from assms have "k \<le> \<lfloor>t\<rfloor>" by (simp add: le_floor_iff)
  with rne_floor(1)[of t] show ?thesis by linarith
qed

lemma rne_le:
  assumes "t \<le> of_int k"
  shows "round_half_even t \<le> k"
proof (cases "t = of_int k")
  case True
  then show ?thesis by simp
next
  case False
  with assms have "t < of_int k" by simp
  then have "\<lfloor>t\<rfloor> < k" by (simp add: floor_less_iff)
  with rne_floor(2)[of t] show ?thesis by simp
qed

lemma rne_mono:
  assumes "s \<le> t"
  shows "round_half_even s \<le> round_half_even t"
proof (cases "\<lfloor>s\<rfloor> = \<lfloor>t\<rfloor>")
  case True
  with assms show ?thesis
    by (auto simp: round_half_even_def Let_def)
next
  case False
  with assms have "\<lfloor>s\<rfloor> < \<lfloor>t\<rfloor>" using floor_mono[of s t] by simp
  with rne_floor(2)[of s] rne_floor(1)[of t] show ?thesis by simp
qed


lemma rne_minus: "round_half_even (- t) = - round_half_even t"
proof (cases "t = of_int \<lfloor>t\<rfloor>")
  case True
  then obtain k where "t = of_int k" ..
  then have "- t = of_int (- k)" by simp
  then show ?thesis unfolding \<open>t = of_int k\<close> by (simp only: rne_of_int)
next
  case False
  then have f: "\<lfloor>- t\<rfloor> = - \<lfloor>t\<rfloor> - 1"
    by (simp add: floor_minus ceiling_altdef)
  show ?thesis
    using False by (auto simp: round_half_even_def Let_def f)
qed

subsection \<open>Rounding to binary64\<close>

lemma ulp_pos [simp]: "0 < ulp x"
  by (simp add: ulp_def)

lemma ulp_nonneg [simp]: "0 \<le> ulp x"
  by (simp add: ulp_def)

lemma ulp_neq_0 [simp]: "ulp x \<noteq> 0"
  by (simp add: ulp_def)

lemma exponent_minus [simp]: "exponent (- x) = exponent x"
  by (simp add: exponent_def)

lemma ulp_minus [simp]: "ulp (- x) = ulp x"
  by (simp add: ulp_def)

lemma round64_0 [simp]: "round64 0 = 0"
  by (simp add: round64_def)

lemma round64_minus: "round64 (- x) = - round64 x"
  by (simp add: round64_def rne_minus)

lemma pow2_exponent: "2 powi (exponent x + 1) = 2 ^ 53 * ulp x" "2 powi exponent x = 2 ^ 52 * ulp x"
proof -
  have "exponent x + 1 = 53 + (exponent x - 52)" by simp
  then have "(2::rat) powi (exponent x + 1) = 2 powi (53 + (exponent x - 52))" by (simp only:)
  also have "\<dots> = 2 powi 53 * 2 powi (exponent x - 52)" by (rule power_int_add) simp
  finally show "2 powi (exponent x + 1) = 2 ^ 53 * ulp x" by (simp add: ulp_def)
  have "exponent x = 52 + (exponent x - 52)" by simp
  then have "(2::rat) powi exponent x = 2 powi (52 + (exponent x - 52))" by (simp only:)
  also have "\<dots> = 2 powi 52 * 2 powi (exponent x - 52)" by (rule power_int_add) simp
  finally show "2 powi exponent x = 2 ^ 52 * ulp x" by (simp add: ulp_def)
qed

lemma round64_mult:
  assumes "x \<noteq> 0" "x / ulp x = of_int m"
  shows "round64 x = x"
proof -
  from assms(2) have "x = of_int m * ulp x" by (simp add: field_simps)
  then show ?thesis using assms by (simp add: round64_def)
qed

lemma round64_upper:
  assumes "0 < x"
  shows "round64 x \<le> 2 powi (exponent x + 1)"
proof -
  have "ilog2 x \<le> exponent x" using assms by (simp add: exponent_def)
  then have "(2::rat) powi (ilog2 x + 1) \<le> 2 powi (exponent x + 1)"
    by (simp add: pow2_le_iff)
  with ilog2_bounds(2)[OF assms] have "x \<le> 2 powi (exponent x + 1)" by linarith
  then have "x \<le> 2 ^ 53 * ulp x" by (simp only: pow2_exponent(1))
  then have "x / ulp x \<le> of_int (2 ^ 53)" by (simp add: field_simps)
  then have "round_half_even (x / ulp x) \<le> 2 ^ 53" by (rule rne_le)
  then have "(of_int (round_half_even (x / ulp x)) :: rat) \<le> of_int (2 ^ 53)"
    by (simp only: of_int_le_iff)
  then have "of_int (round_half_even (x / ulp x)) * ulp x \<le> 2 ^ 53 * ulp x"
    by simp
  moreover have "round64 x = of_int (round_half_even (x / ulp x)) * ulp x"
    using assms by (simp add: round64_def)
  ultimately show ?thesis by (simp only: pow2_exponent(1))
qed

lemma round64_lower:
  assumes "0 < x" "- 1022 \<le> ilog2 x"
  shows "2 powi exponent x \<le> round64 x"
proof -
  have e: "exponent x = ilog2 x" using assms by (simp add: exponent_def)
  from ilog2_bounds(1)[OF assms(1)] have "2 powi exponent x \<le> x" by (simp only: e)
  then have "2 ^ 52 * ulp x \<le> x" by (simp only: pow2_exponent(2))
  then have "of_int (2 ^ 52) \<le> x / ulp x" by (simp add: field_simps)
  then have "2 ^ 52 \<le> round_half_even (x / ulp x)" by (rule rne_ge)
  then have "(of_int (2 ^ 52) :: rat) \<le> of_int (round_half_even (x / ulp x))"
    by (simp only: of_int_le_iff)
  then have "2 ^ 52 * ulp x \<le> of_int (round_half_even (x / ulp x)) * ulp x"
    by simp
  moreover have "round64 x = of_int (round_half_even (x / ulp x)) * ulp x"
    using assms by (simp add: round64_def)
  ultimately show ?thesis by (simp only: pow2_exponent(2))
qed

lemma round64_nonneg:
  assumes "0 \<le> x"
  shows "0 \<le> round64 x"
proof (cases "x = 0")
  case True
  then show ?thesis by simp
next
  case False
  with assms have "of_int 0 \<le> x / ulp x" by simp
  then have "0 \<le> round_half_even (x / ulp x)" by (rule rne_ge)
  then show ?thesis using False by (simp add: round64_def)
qed

lemma round64_mono_pos:
  assumes "0 < x" "x \<le> y"
  shows "round64 x \<le> round64 y"
proof -
  from assms have y: "0 < y" by simp
  have i: "ilog2 x \<le> ilog2 y" using assms by (rule ilog2_mono)
  then have le: "exponent x \<le> exponent y" using assms y by (simp add: exponent_def)
  show ?thesis
  proof (cases "exponent x = exponent y")
    case True
    then have u: "ulp x = ulp y" by (simp add: ulp_def)
    from assms(2) have "x / ulp y \<le> y / ulp y" by (simp add: divide_right_mono)
    then have "round_half_even (x / ulp y) \<le> round_half_even (y / ulp y)" by (rule rne_mono)
    then have "(of_int (round_half_even (x / ulp y)) :: rat) \<le> of_int (round_half_even (y / ulp y))"
      by (simp only: of_int_le_iff)
    then have "of_int (round_half_even (x / ulp y)) * ulp y \<le> of_int (round_half_even (y / ulp y)) * ulp y"
      by simp
    then show ?thesis using assms y by (simp add: round64_def u)
  next
    case False
    with le have lt: "exponent x < exponent y" by simp
    then have n: "- 1022 \<le> ilog2 y" "- 1022 < exponent y"
      using assms y by (auto simp: exponent_def max_def split: if_splits)
    from lt have "(2::rat) powi (exponent x + 1) \<le> 2 powi exponent y"
      by (simp add: pow2_le_iff)
    with round64_upper[OF assms(1)] round64_lower[OF y n(1)] show ?thesis by linarith
  qed
qed

lemma round64_mono:
  assumes "x \<le> y"
  shows "round64 x \<le> round64 y"
proof -
  consider "0 < x" | "x = 0" | "x < 0" "y < 0" | "x < 0" "0 \<le> y" by linarith
  then show ?thesis
  proof cases
    case 1
    then show ?thesis using assms by (rule round64_mono_pos)
  next
    case 2
    then show ?thesis using assms round64_nonneg[of y] by simp
  next
    case 3
    then have "0 < - y" "- y \<le> - x" using assms by simp_all
    then have "round64 (- y) \<le> round64 (- x)" by (rule round64_mono_pos)
    then show ?thesis by (simp add: round64_minus)
  next
    case 4
    then have "0 \<le> round64 (- x)" by (intro round64_nonneg) simp
    then have "round64 x \<le> 0" by (simp add: round64_minus)
    with round64_nonneg[OF 4(2)] show ?thesis by simp
  qed
qed


lemma round64_idem_pos:
  assumes "0 < x"
  shows "round64 (round64 x) = round64 x"
proof -
  define r where "r = round64 x"
  define m where "m = round_half_even (x / ulp x)"
  have r: "r = of_int m * ulp x" using assms by (simp add: r_def m_def round64_def)
  have r0: "0 \<le> r" unfolding r_def using assms by (intro round64_nonneg) simp
  have up: "r \<le> 2 powi (exponent x + 1)" unfolding r_def using assms by (rule round64_upper)
  have e: "- 1022 \<le> exponent x" by (simp add: exponent_def)
  consider "r = 0" | "r = 2 powi (exponent x + 1)" | "0 < r" "r < 2 powi (exponent x + 1)"
    using r0 up by linarith
  then have "round64 r = r"
  proof cases
    case 1
    then show ?thesis by simp
  next
    case 2
    then have "ilog2 r = exponent x + 1"
      by (intro ilog2_eqI) (simp_all add: pow2_less_iff)
    then have "exponent r = exponent x + 1" using e 2 by (simp add: exponent_def)
    then have "ulp r = 2 powi (exponent x - 52 + 1)" by (simp add: ulp_def)
    then have "ulp r = 2 * ulp x" by (simp only: pow2_Suc ulp_def)
    then have "r / ulp r = of_int (2 ^ 52)" using 2 by (simp add: pow2_exponent)
    moreover have "r \<noteq> 0" using 2 by simp
    ultimately show ?thesis by (intro round64_mult)
  next
    case 3
    have "exponent r = exponent x"
    proof (cases "- 1022 \<le> ilog2 x")
      case True
      then have ex: "exponent x = ilog2 x" using assms by (simp add: exponent_def)
      from round64_lower[OF assms True] have "2 powi exponent x \<le> r" by (simp add: r_def)
      with 3(2) have "ilog2 r = exponent x" by (intro ilog2_eqI)
      then show ?thesis using e 3(1) by (simp add: exponent_def)
    next
      case False
      then have ex: "exponent x = - 1022" using assms by (simp add: exponent_def)
      from ilog2_less[OF 3] have "ilog2 r \<le> - 1022" by (simp add: ex)
      then have "exponent r = - 1022" using 3(1) by (simp add: exponent_def)
      then show ?thesis by (simp only: ex)
    qed
    then have "ulp r = ulp x" by (simp add: ulp_def)
    then have "r / ulp r = of_int m" by (simp add: r)
    moreover have "r \<noteq> 0" using 3 by simp
    ultimately show ?thesis by (intro round64_mult)
  qed
  then show ?thesis by (simp add: r_def)
qed

lemma round64_idem [simp]: "round64 (round64 x) = round64 x"
proof -
  consider "0 < x" | "x = 0" | "x < 0" by linarith
  then show ?thesis
  proof cases
    case 1
    then show ?thesis by (rule round64_idem_pos)
  next
    case 2
    then show ?thesis by simp
  next
    case 3
    then have "round64 (round64 (- x)) = round64 (- x)" by (intro round64_idem_pos) simp
    then show ?thesis by (simp add: round64_minus)
  qed
qed

subsection \<open>Adding a hundredth\<close>


lemma plus_hundredth_float [simp]: "round64 (plus_hundredth v) = plus_hundredth v"
  by (simp add: plus_hundredth_def)









lemma round64_pow2:
  assumes "- 1022 \<le> k"
  shows "round64 (2 powi k) = 2 powi k"
proof -
  have "ilog2 (2 powi k) = k" by (intro ilog2_eqI) (simp_all add: pow2_less_iff)
  then have "exponent (2 powi k) = k" using assms by (simp add: exponent_def)
  with pow2_exponent(2)[of "2 powi k"] have "2 powi k = 2 ^ 52 * ulp (2 powi k)"
    by (simp only:)
  then have "2 powi k / ulp (2 powi k) = 2 ^ 52 * ulp (2 powi k) / ulp (2 powi k)"
    by (simp only:)
  then have "2 powi k / ulp (2 powi k) = of_int (2 ^ 52)" by simp
  then show ?thesis by (intro round64_mult) simp_all
qed

text \<open>The conversion to \<open>float\<close> does not overflow below \<open>2 ^ 1023\<close>.\<close>

lemma no_float_overflow:
  assumes "\<bar>v\<bar> \<le> 2 ^ 1023"
  shows "\<not> float_overflows v"
proof -
  have p: "round64 (2 ^ 1023) = 2 ^ 1023"
    using round64_pow2[of 1023] by simp
  from assms have "v \<le> 2 ^ 1023" "- (2 ^ 1023) \<le> v" by (simp_all only: abs_le_iff) simp_all
  then have "round64 v \<le> round64 (2 ^ 1023)" "round64 (- (2 ^ 1023)) \<le> round64 v"
    by (simp_all only: round64_mono)
  then have "round64 v \<le> 2 ^ 1023" "- (2 ^ 1023) \<le> round64 v"
    by (simp_all only: round64_minus p)
  then have "\<bar>round64 v\<bar> \<le> 2 ^ 1023" by (simp only: abs_le_iff) simp
  moreover have "(2::rat) ^ 1023 < 2 ^ 1024" by simp
  ultimately show ?thesis unfolding float_overflows_def by linarith
qed



lemma plus_hundredth_5:
  "plus_hundredth 5 = 2820379266640773 / 562949953421312"
  "plus_hundredth (2820379266640773 / 562949953421312) = 1413004383087493 / 281474976710656"
  "plus_hundredth (1413004383087493 / 281474976710656) = 2831638265709199 / 562949953421312"
  by code_simp+

section \<open>Lemmas on traces and on the loops\<close>

lemma requested_append [simp]: "requested (xs @ ys) = requested xs @ requested ys"
  by (induction xs rule: requested.induct) auto

lemma found_append [simp]: "found (xs @ ys) = found xs @ found ys"
  by (induction xs rule: found.induct) auto

lemma written_append [simp]: "written (xs @ ys) = written xs @ written ys"
  by (induction xs rule: written.induct) auto

lemma failures_append [simp]: "failures (xs @ ys) = failures xs + failures ys"
  by (induction xs rule: failures.induct) auto

lemma requesting_fields [simp]:
  "trace (requesting s e st) = trace st @ [Requesting s e]"
  "sleep_duration (requesting s e st) = sleep_duration st"
  "n_requests_until_fail (requesting s e st) = n_requests_until_fail st"
  "files (requesting s e st) = files st"
  by (simp_all add: requesting_def)

lemma persist_fields [simp]:
  "trace (persist k s e r st) = trace st @ [Writing (response_fn s e)]"
  "sleep_duration (persist k s e r st) = sleep_duration st"
  "n_requests_until_fail (persist k s e r st) = n_requests_until_fail st"
  "files (persist k s e r st) = write_file (response_fn s e) (take k (dump s e r)) (files st)"
  by (simp_all add: persist_def)

lemma succeeded_fields [simp]:
  "trace (succeeded st) = trace st @ [Sleeping (sleep_duration st)]"
  "sleep_duration (succeeded st) = sleep_duration st"
  "n_requests_until_fail (succeeded st) = n_requests_until_fail st + 1"
  "files (succeeded st) = files st"
  by (simp_all add: succeeded_def)

lemma failed_fields [simp]:
  "trace (failed st) = trace st @ [Request_Failed]"
  "sleep_duration (failed st) = sleep_duration st"
  "n_requests_until_fail (failed st) = n_requests_until_fail st"
  "files (failed st) = files st"
  by (simp_all add: failed_def)

lemma waited_fields [simp]:
  "trace (waited rd st) = trace st @ [Sleeping (of_int rd)]"
  "sleep_duration (waited rd st) = sleep_duration st"
  "n_requests_until_fail (waited rd st) = 0"
  "files (waited rd st) = files st"
  by (simp_all add: waited_def)

lemma backoff_fields [simp]:
  "trace (backoff rd st) = trace st @ [Sleeping (of_int rd)]"
  "sleep_duration (backoff rd st) = plus_hundredth (sleep_duration st)"
  "n_requests_until_fail (backoff rd st) = 0"
  "files (backoff rd st) = files st"
  by (simp_all add: backoff_def)

lemma remote_failures_append [simp]:
  "remote_failures (xs @ ys) = remote_failures xs + remote_failures ys"
  by (induction xs rule: remote_failures.induct) auto

lemma retry_loop_counter:
  "retry_loop ms rd s e ocs st = (Completed, ocs', st') \<Longrightarrow>
     failures (trace st) \<le> failures (trace st') \<and>
     n_requests_until_fail st' =
       (if failures (trace st') = failures (trace st) then n_requests_until_fail st + 1 else 1)"
  by (induction ms rd s e ocs st rule: retry_loop.induct) (auto split: if_splits)

lemma retry_loop_trace:
  "retry_loop ms rd s e ocs st = (x, ocs', st') \<Longrightarrow>
     \<exists>tr. trace st' = trace st @ tr \<and> found tr = [] \<and>
          requested tr = replicate (length (requested tr)) (s, e) \<and>
          (x = Completed \<longrightarrow> requested tr \<noteq> [])"
proof (induction ms rd s e ocs st arbitrary: x ocs' st' rule: retry_loop.induct)
  case (1 ms rd s e st)
  then show ?case by simp
next
  case (2 ms rd s e ocs st)
  show ?case
  proof (cases "sleep_raises ms (of_int rd) \<or> float_overflows (sleep_duration st)")
    case True
    with 2(2) show ?thesis by (auto split: if_splits)
  next
    case False
    with 2(2) have "retry_loop ms rd s e ocs (backoff rd (failed (requesting s e st))) = (x, ocs', st')"
      by simp
    from 2(1)[OF _ _ this] False obtain tr where
      "trace st' = trace (backoff rd (failed (requesting s e st))) @ tr" "found tr = []"
      "requested tr = replicate (length (requested tr)) (s, e)" by blast
    then show ?thesis
      by (intro exI[of _ "[Requesting s e, Request_Failed, Sleeping (of_int rd)] @ tr"]) simp
  qed
next
  case (3 ms rd s e r ocs st)
  show ?case
  proof (cases "float_overflows (sleep_duration st) \<or> sleep_raises ms (sleep_duration st)")
    case neg: True
    show ?thesis
    proof (cases "sleep_raises ms (of_int rd) \<or> float_overflows (sleep_duration st)")
      case True
      with 3(2) neg show ?thesis by (auto split: if_splits)
    next
      case False
      with 3(2) neg have "retry_loop ms rd s e ocs
          (backoff rd (failed (persist (length (dump s e r)) s e r (requesting s e st)))) = (x, ocs', st')"
        by simp
      from 3(1)[OF neg _ _ this] False obtain tr where
        "trace st' = trace (backoff rd (failed (persist (length (dump s e r)) s e r (requesting s e st)))) @ tr"
        "found tr = []" "requested tr = replicate (length (requested tr)) (s, e)" by blast
      then show ?thesis
        by (intro exI[of _ "[Requesting s e, Writing (response_fn s e), Request_Failed, Sleeping (of_int rd)] @ tr"]) simp
    qed
  next
    case False
    with 3(2) show ?thesis by auto
  qed
next
  case (4 ms rd s e r k ocs st)
  then show ?case by auto
qed

lemma fetch_periods_todo:
  "response_fn s e \<notin> c \<Longrightarrow> retry_loop ms rd s e ocs st = (x, ocs1, st1) \<Longrightarrow>
   fetch_periods ms rd c ((s, e) # ps) ocs st =
     (if x = Completed then fetch_periods ms rd c ps ocs1 st1 else (x, ocs1, st1))"
  by simp

lemma fetch_periods_skip:
  "response_fn s e \<in> c \<Longrightarrow>
   fetch_periods ms rd c ((s, e) # ps) ocs st =
     fetch_periods ms rd c ps ocs (st\<lparr>trace := trace st @ [Found (response_fn s e)]\<rparr>)"
  by simp

lemma repeats_Nil [simp]: "repeats [] ws = []" "repeats ns [] = []"
  by (simp_all add: repeats_def)

lemma repeats_Cons [simp]: "repeats (n # ns) (w # ws) = replicate n w @ repeats ns ws"
  by (simp add: repeats_def)

lemma repeats_append:
  "length ns = length ws \<Longrightarrow> repeats (ns @ ms) (ws @ vs) = repeats ns ws @ repeats ms vs"
  by (simp add: repeats_def)

lemma repeats_short:
  "length ns \<le> length ws \<Longrightarrow> repeats ns (ws @ vs) = repeats ns ws"
  by (simp add: repeats_def zip_append2)

lemma fetch_periods_shape:
  "fetch_periods ms rd c ps ocs st = (x, ocs', st') \<Longrightarrow>
     \<exists>tr ns. trace st' = trace st @ tr \<and> (\<forall>n\<in>set ns. 0 < n) \<and>
            length ns \<le> length (todo c ps) \<and>
            requested tr = repeats ns (todo c ps) \<and>
            (x = Completed \<longrightarrow>
               length ns = length (todo c ps) \<and>
               found tr = map (\<lambda>(s, e). response_fn s e) (skipped c ps))"
proof (induction ps arbitrary: ocs st)
  case Nil
  then show ?case by (auto simp: todo_def skipped_def)
next
  case (Cons p ps)
  obtain s e where p: "p = (s, e)" by (cases p)
  show ?case
  proof (cases "response_fn s e \<in> c")
    case True
    with Cons.prems p have
      "fetch_periods ms rd c ps ocs (st\<lparr>trace := trace st @ [Found (response_fn s e)]\<rparr>) = (x, ocs', st')"
      by simp
    from Cons.IH[OF this] obtain tr ns where h:
      "trace st' = (trace st @ [Found (response_fn s e)]) @ tr" "\<forall>n\<in>set ns. 0 < n"
      "length ns \<le> length (todo c ps)" "requested tr = repeats ns (todo c ps)"
      "x = Completed \<longrightarrow> length ns = length (todo c ps) \<and>
         found tr = map (\<lambda>(s, e). response_fn s e) (skipped c ps)"
      by auto
    show ?thesis
      apply (rule exI[of _ "Found (response_fn s e) # tr"])
      apply (rule exI[of _ ns])
      using h True p by (simp add: todo_def skipped_def)
  next
    case False
    obtain y ocs1 st1 where r: "retry_loop ms rd s e ocs st = (y, ocs1, st1)"
      by (cases "retry_loop ms rd s e ocs st") auto
    from retry_loop_trace[OF r] obtain tr1 where t1:
      "trace st1 = trace st @ tr1" "found tr1 = []"
      "requested tr1 = replicate (length (requested tr1)) (s, e)"
      "y = Completed \<longrightarrow> requested tr1 \<noteq> []" by blast
    have td: "todo c (p # ps) = (s, e) # todo c ps"
      using False p by (simp add: todo_def)
    have sk: "skipped c (p # ps) = skipped c ps"
      using False p by (simp add: skipped_def)
    show ?thesis
    proof (cases "y = Completed")
      case True
      with Cons.prems p False r have "fetch_periods ms rd c ps ocs1 st1 = (x, ocs', st')"
        by (simp add: fetch_periods_todo)
      from Cons.IH[OF this] obtain tr ns where h:
        "trace st' = trace st1 @ tr" "\<forall>n\<in>set ns. 0 < n"
        "length ns \<le> length (todo c ps)" "requested tr = repeats ns (todo c ps)"
        "x = Completed \<longrightarrow> length ns = length (todo c ps) \<and>
           found tr = map (\<lambda>(s, e). response_fn s e) (skipped c ps)"
        by auto
      show ?thesis
        apply (rule exI[of _ "tr1 @ tr"])
        apply (rule exI[of _ "length (requested tr1) # ns"])
        using h t1 True td sk by simp
    next
      case False
      with Cons.prems p \<open>response_fn s e \<notin> c\<close> r have x: "x = y" "st' = st1"
        by (simp_all add: fetch_periods_todo)
      show ?thesis
      proof (cases "requested tr1 = []")
        case True
        show ?thesis
          apply (rule exI[of _ tr1])
          apply (rule exI[of _ "[]"])
          using t1 True x False by simp
      next
        case nonempty: False
        show ?thesis
          apply (rule exI[of _ tr1])
          apply (rule exI[of _ "[length (requested tr1)]"])
          using t1 nonempty x False td by simp
      qed
    qed
  qed
qed

lemma todo_append [simp]: "todo c (xs @ ys) = todo c xs @ todo c ys"
  by (simp add: todo_def)

lemma skipped_append [simp]: "skipped c (xs @ ys) = skipped c xs @ skipped c ys"
  by (simp add: skipped_def)

lemma fetch_all_shape:
  "fetch_all ms rd c aps ocs st = (x, ocs', st') \<Longrightarrow>
     \<exists>tr ns. trace st' = trace st @ tr \<and> (\<forall>n\<in>set ns. 0 < n) \<and>
            length ns \<le> length (todo c (concat aps)) \<and>
            requested tr = repeats ns (todo c (concat aps)) \<and>
            (x = Completed \<longrightarrow>
               length ns = length (todo c (concat aps)) \<and>
               found tr = map (\<lambda>(s, e). response_fn s e) (skipped c (concat aps)))"
proof (induction aps arbitrary: ocs st)
  case Nil
  then show ?case by (auto simp: todo_def skipped_def)
next
  case (Cons ps aps)
  obtain y ocs1 st1 where r: "fetch_periods ms rd c ps ocs st = (y, ocs1, st1)"
    by (cases "fetch_periods ms rd c ps ocs st") auto
  from fetch_periods_shape[OF r] obtain tr1 ns1 where t1:
    "trace st1 = trace st @ tr1" "\<forall>n\<in>set ns1. 0 < n"
    "length ns1 \<le> length (todo c ps)" "requested tr1 = repeats ns1 (todo c ps)"
    "y = Completed \<longrightarrow> length ns1 = length (todo c ps) \<and>
       found tr1 = map (\<lambda>(s, e). response_fn s e) (skipped c ps)"
    by blast
  show ?case
  proof (cases "y = Completed")
    case True
    with Cons.prems r have "fetch_all ms rd c aps ocs1 st1 = (x, ocs', st')" by simp
    from Cons.IH[OF this] obtain tr ns where h:
      "trace st' = trace st1 @ tr" "\<forall>n\<in>set ns. 0 < n"
      "length ns \<le> length (todo c (concat aps))" "requested tr = repeats ns (todo c (concat aps))"
      "x = Completed \<longrightarrow> length ns = length (todo c (concat aps)) \<and>
         found tr = map (\<lambda>(s, e). response_fn s e) (skipped c (concat aps))"
      by blast
    show ?thesis
      apply (rule exI[of _ "tr1 @ tr"])
      apply (rule exI[of _ "ns1 @ ns"])
      using h t1 True by (auto simp: repeats_append)
  next
    case False
    with Cons.prems r have x: "x = y" "st' = st1" by simp_all
    show ?thesis
      apply (rule exI[of _ tr1])
      apply (rule exI[of _ ns1])
      using t1 x False by (simp add: repeats_short)
  qed
qed

lemma sleeps_no_overflow:
  assumes "ms < 2 ^ 46" "\<not> sleep_raises ms v"
  shows "\<not> float_overflows v"
proof -
  from assms have "\<bar>v\<bar> \<le> 2 ^ 46" by (simp add: sleep_raises_def abs_le_iff)
  moreover have "(2::rat) ^ 46 \<le> 2 ^ 1023" by simp
  ultimately have "\<bar>v\<bar> \<le> 2 ^ 1023" by (rule order_trans)
  then show ?thesis by (rule no_float_overflow)
qed





lemma sleeps_on_0: "sleeps_on ms n v \<Longrightarrow> \<not> sleep_raises ms v"
  unfolding sleeps_on_def by (drule spec[of _ 0]) simp

lemma sleeps_on_mono: "sleeps_on ms n v \<Longrightarrow> m \<le> n \<Longrightarrow> sleeps_on ms m v"
  by (simp add: sleeps_on_def)

lemma sleeps_on_Suc: "sleeps_on ms (Suc n) v \<Longrightarrow> sleeps_on ms n (plus_hundredth v)"
  unfolding sleeps_on_def
proof (intro allI impI)
  fix k
  assume a: "\<forall>k\<le>Suc n. \<not> sleep_raises ms ((plus_hundredth ^^ k) v)" and "k \<le> n"
  from a[rule_format, of "Suc k"] \<open>k \<le> n\<close>
  have "\<not> sleep_raises ms ((plus_hundredth ^^ Suc k) v)" by simp
  then show "\<not> sleep_raises ms ((plus_hundredth ^^ k) (plus_hundredth v))"
    by (simp add: funpow_swap1)
qed

lemma retry_loop_completes:
  "ms < 2 ^ 46 \<Longrightarrow> \<not> sleep_raises ms (of_int rd) \<Longrightarrow>
   sleeps_on ms (length ocs) (sleep_duration st) \<Longrightarrow> uninterrupted ocs \<Longrightarrow>
   0 < successes ocs \<Longrightarrow>
     \<exists>ocs' st'. retry_loop ms rd s e ocs st = (Completed, ocs', st') \<and>
       successes ocs = Suc (successes ocs') \<and> uninterrupted ocs' \<and>
       sleeps_on ms (length ocs') (sleep_duration st')"
proof (induction ms rd s e ocs st rule: retry_loop.induct)
  case (1 ms rd s e st)
  then show ?case by simp
next
  case (2 ms rd s e ocs st)
  from 2(4) have s0: "\<not> sleep_raises ms (sleep_duration st)" by (rule sleeps_on_0)
  from sleeps_no_overflow[OF 2(2) s0] have o: "\<not> float_overflows (sleep_duration st)" .
  have "sleeps_on ms (length ocs) (sleep_duration (backoff rd (failed (requesting s e st))))"
    using 2(4) by (simp add: sleeps_on_Suc)
  from 2(1)[OF 2(3) o 2(2) 2(3) this] 2(3,5,6) o show ?case by simp
next
  case (3 ms rd s e r ocs st)
  from 3(4) have s0: "\<not> sleep_raises ms (sleep_duration st)" by (rule sleeps_on_0)
  from sleeps_no_overflow[OF 3(2) s0] have o: "\<not> float_overflows (sleep_duration st)" .
  have "sleeps_on ms (length ocs) (sleep_duration st)"
    using 3(4) by (rule sleeps_on_mono) simp
  with s0 o 3(5,6) show ?case by simp
next
  case (4 ms rd s e r k ocs st)
  then show ?case by simp
qed

lemma fetch_periods_completes:
  "ms < 2 ^ 46 \<Longrightarrow> \<not> sleep_raises ms (of_int rd) \<Longrightarrow>
   sleeps_on ms (length ocs) (sleep_duration st) \<Longrightarrow> uninterrupted ocs \<Longrightarrow>
   length (todo c ps) \<le> successes ocs \<Longrightarrow>
     \<exists>ocs' st'. fetch_periods ms rd c ps ocs st = (Completed, ocs', st') \<and>
       successes ocs = length (todo c ps) + successes ocs' \<and> uninterrupted ocs' \<and>
       sleeps_on ms (length ocs') (sleep_duration st')"
proof (induction ps arbitrary: ocs st)
  case Nil
  then show ?case by (simp add: todo_def)
next
  case (Cons p ps)
  obtain s e where p: "p = (s, e)" by (cases p)
  show ?case
  proof (cases "response_fn s e \<in> c")
    case True
    have "sleeps_on ms (length ocs)
            (sleep_duration (st\<lparr>trace := trace st @ [Found (response_fn s e)]\<rparr>))"
      using Cons.prems by simp
    from Cons.IH[OF Cons.prems(1,2) this Cons.prems(4)] Cons.prems(5) True p
    show ?thesis by (simp add: todo_def)
  next
    case False
    then have td: "todo c (p # ps) = (s, e) # todo c ps" using p by (simp add: todo_def)
    with Cons.prems have "0 < successes ocs" by simp
    from retry_loop_completes[OF Cons.prems(1,2,3,4) this, of s e] obtain ocs1 st1 where r:
      "retry_loop ms rd s e ocs st = (Completed, ocs1, st1)" "successes ocs = Suc (successes ocs1)"
      "uninterrupted ocs1" "sleeps_on ms (length ocs1) (sleep_duration st1)" by blast
    have "length (todo c ps) \<le> successes ocs1" using Cons.prems(5) td r(2) by simp
    from Cons.IH[OF Cons.prems(1,2) r(4) r(3) this] r(1,2) False p td
    show ?thesis by simp
  qed
qed

lemma fetch_all_completes:
  "ms < 2 ^ 46 \<Longrightarrow> \<not> sleep_raises ms (of_int rd) \<Longrightarrow>
   sleeps_on ms (length ocs) (sleep_duration st) \<Longrightarrow> uninterrupted ocs \<Longrightarrow>
   length (todo c (concat aps)) \<le> successes ocs \<Longrightarrow>
     \<exists>ocs' st'. fetch_all ms rd c aps ocs st = (Completed, ocs', st') \<and>
       successes ocs = length (todo c (concat aps)) + successes ocs' \<and> uninterrupted ocs' \<and>
       sleeps_on ms (length ocs') (sleep_duration st')"
proof (induction aps arbitrary: ocs st)
  case Nil
  then show ?case by (simp add: todo_def)
next
  case (Cons ps aps)
  have "length (todo c ps) \<le> successes ocs" using Cons.prems(5) by simp
  from fetch_periods_completes[OF Cons.prems(1,2,3,4) this] obtain ocs1 st1 where r:
    "fetch_periods ms rd c ps ocs st = (Completed, ocs1, st1)"
    "successes ocs = length (todo c ps) + successes ocs1"
    "uninterrupted ocs1" "sleeps_on ms (length ocs1) (sleep_duration st1)" by blast
  have "length (todo c (concat aps)) \<le> successes ocs1" using Cons.prems(5) r(2) by simp
  from Cons.IH[OF Cons.prems(1,2) r(4) r(3) this] r(1,2)
  show ?case by simp
qed

lemma endswith_append [simp]: "endswith (xs @ suf) suf"
  by (simp add: endswith_def)

lemma response_fn_endswith [simp]: "endswith (response_fn s e) ''.response.json''"
proof -
  have "response_fn s e =
      (filter (\<lambda>c. c \<noteq> CHR '':'') s @ ''_'' @ filter (\<lambda>c. c \<noteq> CHR '':'') e) @ ''.response.json''"
    by (simp add: response_fn_def)
  then show ?thesis by (simp only: endswith_append)
qed

lemma response_fn_collected:
  "response_fn s e \<in> responses_collected d \<longleftrightarrow> response_fn s e \<in> set (listdir d)"
  by (simp add: responses_collected_def)

lemma todo_collected: "todo (responses_collected d) ps = todo (set (listdir d)) ps"
  by (simp add: todo_def response_fn_collected)

lemma skipped_collected: "skipped (responses_collected d) ps = skipped (set (listdir d)) ps"
  by (simp add: skipped_def response_fn_collected)

lemma take_less_neq: "k < length xs \<Longrightarrow> take k xs \<noteq> xs"
proof
  assume "k < length xs" "take k xs = xs"
  then have "length (take k xs) = length xs" by simp
  with \<open>k < length xs\<close> show False by simp
qed

lemma fn_eval1:
  "response_fn ''2022-01-01T00:00:00Z'' ''2022-01-08T00:00:00Z''
     = ''2022-01-01T000000Z_2022-01-08T000000Z.response.json''"
  by (simp add: response_fn_def)

lemma fn_eval2:
  "response_fn ''2022-01-08T00:00:00Z'' ''2022-01-15T00:00:00Z''
     = ''2022-01-08T000000Z_2022-01-15T000000Z.response.json''"
  by (simp add: response_fn_def)

lemma collected_eval:
  "responses_collected [(''2022-01-01T000000Z_2022-01-08T000000Z.response.json'', x),
                        (''notes.txt'', y)]
     = {''2022-01-01T000000Z_2022-01-08T000000Z.response.json''}"
  using response_fn_endswith[of "''2022-01-01T00:00:00Z''" "''2022-01-08T00:00:00Z''"]
  by (simp add: fn_eval1 responses_collected_def listdir_def endswith_def)

lemma dump_len: "10 < length (dump s e r)"
  by (simp add: dump_def)

text \<open>What the evaluation of a run on given numbers needs.\<close>

lemmas run_eval = sleep_raises_def no_float_overflow plus_hundredth_5

section \<open>Lemmas on the calendar and on the period generator\<close>

subsection \<open>The loop combinator\<close>

lemma for_loop_Cons_err:
  "body x stop = Inl e \<Longrightarrow> for_loop (x # xs) body stop = Inl e"
  by simp

lemma for_loop_Cons_brk:
  "body x stop = Inr (ws, s', True) \<Longrightarrow> for_loop (x # xs) body stop = Inr (ws, s')"
  by simp

lemma for_loop_Cons_go:
  "body x stop = Inr (ws, s', False) \<Longrightarrow>
   for_loop (x # xs) body stop =
     (case for_loop xs body s' of Inl e \<Rightarrow> Inl e | Inr (ws', s'') \<Rightarrow> Inr (ws @ ws', s''))"
  by simp

lemma for_loop_Cons_skip:
  "body x stop = Inr ([], stop, False) \<Longrightarrow> for_loop (x # xs) body stop = for_loop xs body stop"
  by (simp split: sum.splits)

lemma for_loop_ConsE:
  assumes "for_loop (x # xs) body stop = Inr (ws, s'')"
  obtains ws1 s1 where "body x stop = Inr (ws1, s1, True)" "ws = ws1" "s'' = s1"
  | ws1 s1 ws2 where "body x stop = Inr (ws1, s1, False)" "for_loop xs body s1 = Inr (ws2, s'')"
      "ws = ws1 @ ws2"
  using assms by (auto split: sum.splits prod.splits if_splits)

lemma inner_Inr [simp]: "inner (Inr (ws, stop)) = Inr (ws, stop, False)"
  by (simp add: inner_def)

lemma inner_Inl [simp]: "inner (Inl e) = Inl e"
  by (simp add: inner_def)

lemma inner_eq_Inr:
  "inner r = Inr (ws, stop, brk) \<longleftrightarrow> r = Inr (ws, stop) \<and> \<not> brk"
  by (auto simp: inner_def split: sum.splits)

lemma for_loop_all_skip:
  "(\<And>x stop. x \<in> set xs \<Longrightarrow> body x stop = Inr ([], stop, False)) \<Longrightarrow>
   for_loop xs body stop = Inr ([], stop)"
  by (induction xs) (simp_all split: sum.splits)

lemma for_loop_pointwise:
  "for_loop xs body stop = Inr (ws, stop') \<Longrightarrow>
   (\<forall>x\<in>set xs. \<forall>stop ws stop' brk. body x stop = Inr (ws, stop', brk) \<longrightarrow> (\<forall>w\<in>set ws. Q w)) \<Longrightarrow>
   \<forall>w\<in>set ws. Q w"
proof (induction xs arbitrary: stop ws)
  case Nil
  then show ?case by simp
next
  case (Cons x xs)
  from Cons.prems(1) show ?case
  proof (cases rule: for_loop_ConsE)
    case (1 ws1 s1)
    with Cons.prems(2) show ?thesis by fastforce
  next
    case (2 ws1 s1 ws2)
    have a: "\<forall>w\<in>set ws1. Q w" using Cons.prems(2) 2(1) by fastforce
    have b: "\<forall>w\<in>set ws2. Q w" using Cons.IH[OF 2(2)] Cons.prems(2) by simp
    from a b 2(3) show ?thesis by auto
  qed
qed

subsection \<open>Tilings\<close>

lemma tiles_append:
  "tiles g lo mid ws \<Longrightarrow> tiles g mid hi vs \<Longrightarrow> tiles g lo hi (ws @ vs)"
  by (induction ws arbitrary: lo) auto

lemma tiles_le: "0 \<le> g \<Longrightarrow> tiles g lo mid ws \<Longrightarrow> lo \<le> mid"
  by (induction ws arbitrary: lo) fastforce+

lemma linked_le: "linked lo hi L xs H \<Longrightarrow> L \<le> H"
  by (induction xs arbitrary: L) fastforce+

lemma body_ok_empty:
  "(\<And>stop. b stop = Inr ([], stop, False)) \<Longrightarrow> body_ok g now L L b"
  by (auto simp: body_ok_def)

lemma for_loop_ok:
  "linked lo hi L xs H \<Longrightarrow> (\<And>x. x \<in> set xs \<Longrightarrow> body_ok g now (lo x) (hi x) (body x)) \<Longrightarrow>
   body_ok g now L H (\<lambda>stop. inner (for_loop xs body stop))"
proof (induction xs arbitrary: L)
  case Nil
  then show ?case by (auto simp: body_ok_def)
next
  case (Cons x xs)
  from Cons.prems(1) have lk: "lo x = L" "L \<le> hi x" "linked lo hi (hi x) xs H" by simp_all
  have bx: "body_ok g now L (hi x) (body x)" using Cons.prems(2)[of x] lk(1) by simp
  have ih: "body_ok g now (hi x) H (\<lambda>stop. inner (for_loop xs body stop))"
    using Cons.IH[OF lk(3)] Cons.prems(2) by simp
  have hH: "hi x \<le> H" using lk(3) by (rule linked_le)
  show ?case
    unfolding body_ok_def
  proof (intro conjI impI allI)
    fix stop
    assume a: "now - 5400 < L"
    with bx have 1: "body x stop = Inr ([], stop, False)" by (simp add: body_ok_def)
    from a lk(2) have "now - 5400 < hi x" by simp
    with ih have "inner (for_loop xs body stop) = Inr ([], stop, False)"
      by (simp add: body_ok_def)
    then have "for_loop xs body stop = Inr ([], stop)" by (simp add: inner_eq_Inr)
    with 1 show "inner (for_loop (x # xs) body stop) = Inr ([], stop, False)"
      by (simp add: for_loop_Cons_skip)
  next
    fix ws stop' brk
    assume "inner (for_loop (x # xs) body False) = Inr (ws, stop', brk)"
    then have f: "for_loop (x # xs) body False = Inr (ws, stop')" by (simp add: inner_eq_Inr)
    from f show "\<exists>mid. tiles g L mid ws \<and>
                ((mid = H \<and> \<not> stop' \<and> \<not> brk) \<or> (now - 5400 < H \<and> mid \<le> H))"
    proof (cases rule: for_loop_ConsE)
      case (1 ws1 s1)
      with bx obtain mid where m: "tiles g L mid ws1" "now - 5400 < hi x" "mid \<le> hi x"
        by (auto simp: body_ok_def)
      with 1 hH show ?thesis by (intro exI[of _ mid]) auto
    next
      case (2 ws1 s1 ws2)
      with bx obtain mid where m: "tiles g L mid ws1"
        "(mid = hi x \<and> \<not> s1) \<or> (now - 5400 < hi x \<and> mid \<le> hi x)"
        by (auto simp: body_ok_def)
      from m(2) show ?thesis
      proof
        assume c: "mid = hi x \<and> \<not> s1"
        with 2(2) have "inner (for_loop xs body False) = Inr (ws2, stop', False)" by simp
        with ih obtain mid2 where m2: "tiles g (hi x) mid2 ws2"
          "(mid2 = H \<and> \<not> stop') \<or> (now - 5400 < H \<and> mid2 \<le> H)"
          by (auto simp: body_ok_def)
        from m(1) c m2(1) have "tiles g L mid2 (ws1 @ ws2)" by (simp add: tiles_append)
        with m2(2) 2(3) \<open>inner (for_loop (x # xs) body False) = Inr (ws, stop', brk)\<close>
        show ?thesis by (intro exI[of _ mid2]) (auto simp: inner_eq_Inr)
      next
        assume c: "now - 5400 < hi x \<and> mid \<le> hi x"
        with ih have "inner (for_loop xs body s1) = Inr ([], s1, False)"
          by (simp add: body_ok_def)
        with 2(2) have "ws2 = []" by (simp add: inner_eq_Inr)
        with m(1) 2(3) c hH show ?thesis by (intro exI[of _ mid]) auto
      qed
    qed
  qed
qed

lemma linked_upto:
  "a \<le> b + 1 \<Longrightarrow> (\<And>x. a \<le> x \<Longrightarrow> x \<le> b \<Longrightarrow> hi x = lo (x + 1) \<and> lo x \<le> lo (x + 1)) \<Longrightarrow>
   linked lo hi (lo a) [a..b] (lo (b + 1))"
proof (induction a b rule: upto.induct)
  case (1 i j)
  show ?case
  proof (cases "i \<le> j")
    case True
    then have u: "[i..j] = i # [i + 1..j]" by (simp add: upto_rec1)
    have "linked lo hi (lo (i + 1)) [i + 1..j] (lo (j + 1))"
      using 1(1)[OF True] True 1(3) by simp
    with 1(3)[of i] True show ?thesis by (simp add: u)
  next
    case False
    with 1(2) have "i = j + 1" by simp
    then show ?thesis by simp
  qed
qed

subsection \<open>The calendar\<close>

lemma days_in_month_bounds: "28 \<le> days_in_month y m" "days_in_month y m \<le> 31"
  by (simp_all add: days_in_month_def)

lemma days_before_month_1 [simp]: "days_before_month y 1 = 0"
  by (simp add: days_before_month_def)

lemma days_before_month_Suc:
  "1 \<le> m \<Longrightarrow> days_before_month y (m + 1) = days_before_month y m + days_in_month y m"
  by (simp add: days_before_month_def upto_rec2)

lemma days_before_month_13:
  "days_before_month y 13 = (if is_leap y then 366 else 365)"
  by (simp add: days_before_month_def days_in_month_def upto.simps)

lemma div_step:
  fixes y k :: int
  assumes "0 < k"
  shows "y div k = (y - 1) div k + (if y mod k = 0 then 1 else 0)"
proof (cases "y mod k = 0")
  case True
  have "y = k * (y div k) + y mod k" by simp
  with True have "y = k * (y div k)" by simp
  then have "y - 1 = k * (y div k - 1) + (k - 1)"
    by (simp add: algebra_simps)
  then have "(y - 1) div k = y div k - 1"
    using assms by (intro int_div_pos_eq[of _ _ _ "k - 1"]) auto
  with True show ?thesis by simp
next
  case False
  have m: "0 \<le> y mod k" "y mod k < k" using assms by simp_all
  have "y - 1 = k * (y div k) + (y mod k - 1)" by simp
  then have "(y - 1) div k = y div k"
    using assms m False by (intro int_div_pos_eq[of _ _ _ "y mod k - 1"]) auto
  with False show ?thesis by simp
qed

lemma mod_400_100: "(y::int) mod 400 = 0 \<Longrightarrow> y mod 100 = 0"
proof -
  assume "y mod 400 = 0"
  then have "400 dvd y" by presburger
  then have "100 dvd y" by (rule dvd_trans[rotated]) simp
  then show ?thesis by presburger
qed

lemma mod_100_4: "(y::int) mod 100 = 0 \<Longrightarrow> y mod 4 = 0"
  by presburger

lemma days_before_year_Suc:
  "days_before_year (y + 1) = days_before_year y + (if is_leap y then 366 else 365)"
proof -
  have a: "y div 4 = (y - 1) div 4 + (if y mod 4 = 0 then 1 else 0)" by (rule div_step) simp
  have b: "y div 100 = (y - 1) div 100 + (if y mod 100 = 0 then 1 else 0)" by (rule div_step) simp
  have c: "y div 400 = (y - 1) div 400 + (if y mod 400 = 0 then 1 else 0)" by (rule div_step) simp
  have eq: "days_before_year (y + 1) = days_before_year y + 365
      + (if y mod 4 = 0 then 1 else 0) - (if y mod 100 = 0 then 1 else 0)
      + (if y mod 400 = 0 then 1 else 0)"
    unfolding days_before_year_def by (simp only: add_diff_cancel_right' a b c) (simp add: algebra_simps)
  show ?thesis
  proof (cases "y mod 400 = 0")
    case True
    with mod_400_100[OF True] mod_100_4[OF mod_400_100[OF True]] eq show ?thesis
      by (simp add: is_leap_def)
  next
    case n4: False
    show ?thesis
    proof (cases "y mod 100 = 0")
      case True
      with n4 mod_100_4[OF True] eq show ?thesis by (simp add: is_leap_def)
    next
      case False
      with n4 eq show ?thesis by (simp add: is_leap_def)
    qed
  qed
qed

lemma month_start_Suc:
  "1 \<le> m \<Longrightarrow> month_start y (m + 1) = month_start y m + days_in_month y m * 86400"
  by (simp add: month_start_def days_before_month_Suc distrib_right)

lemma month_start_1: "month_start y 1 = year_start y"
  by (simp add: month_start_def year_start_def)

lemma month_start_13: "month_start y 13 = year_start (y + 1)"
  by (simp add: month_start_def year_start_def days_before_month_13 days_before_year_Suc)

lemma year_start_mono: "year_start y \<le> year_start (y + 1)"
  by (simp add: year_start_def days_before_year_Suc)

lemma datetime_Inr_iff:
  "datetime y m d h = Inr t \<longleftrightarrow>
     1 \<le> y \<and> y \<le> 9999 \<and> 1 \<le> m \<and> m \<le> 12 \<and> 1 \<le> d \<and> d \<le> days_in_month y m \<and>
     0 \<le> h \<and> h \<le> 23 \<and> t = month_start y m + (d - 1) * 86400 + h * 3600"
  by (auto simp: datetime_def ymd2ord_def month_start_def algebra_simps)

lemma datetime_cases:
  obtains t where "datetime y m d h = Inr t" | "datetime y m d h = Inl ValueError"
  by (cases "datetime y m d h") (auto simp: datetime_def split: if_splits)

lemma check_invalid_date_Inr:
  "datetime y m d h = Inr t \<Longrightarrow> check_invalid_date now y m d h \<longleftrightarrow> now - 5400 < t"
  by (auto simp: check_invalid_date_def)

lemma check_invalid_date_Inl:
  "datetime y m d h = Inl e \<Longrightarrow> check_invalid_date now y m d h"
  by (simp add: check_invalid_date_def)

lemma plus_timedelta_Inr: "plus_timedelta t delta = Inr r \<Longrightarrow> r = t + delta"
  by (auto simp: plus_timedelta_def split: if_splits)

subsection \<open>The loop bodies\<close>

lemma hourly_body_invalid:
  "datetime y m d h = Inl e \<Longrightarrow> hourly_body now y m d h stop = Inr ([], stop, False)"
  by (simp add: hourly_body_def check_invalid_date_Inl)

lemma hourly_body_ok:
  assumes "datetime y m d h = Inr t"
  shows "body_ok 0 now t (t + 3600) (hourly_body now y m d h)"
  unfolding body_ok_def
proof (intro conjI impI allI)
  fix stop assume "now - 5400 < t"
  then show "hourly_body now y m d h stop = Inr ([], stop, False)"
    using assms by (simp add: hourly_body_def check_invalid_date_Inr)
next
  fix ws stop' brk
  assume a: "hourly_body now y m d h False = Inr (ws, stop', brk)"
  show "\<exists>mid. tiles 0 t mid ws \<and>
          (mid = t + 3600 \<and> \<not> stop' \<and> \<not> brk \<or> now - 5400 < t + 3600 \<and> mid \<le> t + 3600)"
  proof (cases "now - 5400 < t")
    case True
    with a assms have "ws = []" by (simp add: hourly_body_def check_invalid_date_Inr)
    with True show ?thesis by (intro exI[of _ t]) simp
  next
    case False
    with a assms have "ws = [(t, t + 3600)] \<and> \<not> stop' \<and> \<not> brk"
      by (auto simp: hourly_body_def check_invalid_date_Inr split: sum.splits
               dest: plus_timedelta_Inr)
    then show ?thesis by (intro exI[of _ "t + 3600"]) simp
  qed
qed

lemma daily_body_invalid:
  "datetime y m d 0 = Inl e \<Longrightarrow> daily_body now y m d stop = Inr ([], stop, False)"
  by (simp add: daily_body_def check_invalid_date_Inl)

lemma daily_body_ok:
  assumes "datetime y m d 0 = Inr t"
  shows "body_ok 0 now t (t + 86400) (daily_body now y m d)"
  unfolding body_ok_def
proof (intro conjI impI allI)
  fix stop assume "now - 5400 < t"
  then show "daily_body now y m d stop = Inr ([], stop, False)"
    using assms by (simp add: daily_body_def check_invalid_date_Inr)
next
  fix ws stop' brk
  assume a: "daily_body now y m d False = Inr (ws, stop', brk)"
  show "\<exists>mid. tiles 0 t mid ws \<and>
          (mid = t + 86400 \<and> \<not> stop' \<and> \<not> brk \<or> now - 5400 < t + 86400 \<and> mid \<le> t + 86400)"
  proof (cases "now - 5400 < t")
    case True
    with a assms have "ws = []" by (simp add: daily_body_def check_invalid_date_Inr)
    with True show ?thesis by (intro exI[of _ t]) simp
  next
    case False
    show ?thesis
    proof (cases "now < t + 86400")
      case True
      with a assms False have "ws = [(t, now - 3600)]"
        by (auto simp: daily_body_def check_invalid_date_Inr split: sum.splits if_splits
                 dest!: plus_timedelta_Inr)
      with True False show ?thesis by (intro exI[of _ "now - 3600"]) simp
    next
      case nc: False
      with a assms False have "ws = [(t, t + 86400)] \<and> \<not> stop' \<and> \<not> brk"
        by (auto simp: daily_body_def check_invalid_date_Inr split: sum.splits if_splits
                 dest!: plus_timedelta_Inr)
      then show ?thesis by (intro exI[of _ "t + 86400"]) simp
    qed
  qed
qed

lemma datetime_first:
  "1 \<le> y \<Longrightarrow> y \<le> 9999 \<Longrightarrow> 1 \<le> m \<Longrightarrow> m \<le> 12 \<Longrightarrow> datetime y m 1 0 = Inr (month_start y m)"
  using days_in_month_bounds(1)[of y m] by (simp add: datetime_Inr_iff)

lemma month_start_less: "1 \<le> m \<Longrightarrow> month_start y m + 1 < month_start y (m + 1) - 1"
  using days_in_month_bounds(1)[of y m] by (simp add: month_start_Suc)

lemma next_month_start:
  assumes "1 \<le> m" "m \<le> 12"
    and "datetime (if m + 1 > 12 then y + 1 else y) (if m + 1 > 12 then 1 else m + 1) 1 0 = Inr nx"
  shows "nx = month_start y (m + 1)"
proof (cases "m = 12")
  case True
  with assms(3) have "nx = month_start (y + 1) 1" by (simp add: datetime_Inr_iff)
  with True show ?thesis by (simp add: month_start_1 month_start_13)
next
  case False
  with assms show ?thesis by (simp add: datetime_Inr_iff)
qed

lemma monthly_body_ok:
  assumes v: "1 \<le> y" "y \<le> 9999" "1 \<le> m" "m \<le> 12"
  shows "body_ok 1 now (month_start y m) (month_start y (m + 1)) (monthly_body now y m)"
  unfolding body_ok_def
proof (intro conjI impI allI)
  note dt = datetime_first[OF v]
  fix stop assume "now - 5400 < month_start y m"
  then show "monthly_body now y m stop = Inr ([], stop, False)"
    using dt by (simp add: monthly_body_def check_invalid_date_Inr)
next
  note dt = datetime_first[OF v]
  let ?t = "month_start y m" and ?h = "month_start y (m + 1)"
  fix ws stop' brk
  assume a: "monthly_body now y m False = Inr (ws, stop', brk)"
  show "\<exists>mid. tiles 1 ?t mid ws \<and>
          (mid = ?h \<and> \<not> stop' \<and> \<not> brk \<or> now - 5400 < ?h \<and> mid \<le> ?h)"
  proof (cases "now - 5400 < ?t")
    case True
    with a dt have "ws = []" by (simp add: monthly_body_def check_invalid_date_Inr)
    with True month_start_less[OF v(3), of y] show ?thesis by (intro exI[of _ ?t]) simp
  next
    case False
    let ?nd = "datetime (if m + 1 > 12 then y + 1 else y) (if m + 1 > 12 then 1 else m + 1) 1 0"
    from a dt False obtain nx where nx: "?nd = Inr nx"
      by (cases ?nd) (simp_all add: monthly_body_def check_invalid_date_Inr Let_def)
    from a dt False nx obtain en where en: "plus_timedelta nx (- 1) = Inr en"
      by (cases "plus_timedelta nx (- 1)")
         (simp_all add: monthly_body_def check_invalid_date_Inr Let_def)
    from a dt False nx en have
      r: "(if now < en then Inr ([(?t, now)], True, True)
               else Inr ([(?t, en)], False, False)) = Inr (ws, stop', brk)"
      by (auto simp add: monthly_body_def check_invalid_date_Inr Let_def split: if_splits)
    from next_month_start[OF v(3,4) nx] have nxh: "nx = ?h" .
    from plus_timedelta_Inr[OF en] nxh have e: "en = ?h - 1" by simp
    show ?thesis
    proof (cases "now < en")
      case True
      with r have "ws = [(?t, now)]" by simp
      with True False e show ?thesis by (intro exI[of _ "now + 1"]) simp
    next
      case nc: False
      with r have "ws = [(?t, en)] \<and> \<not> stop' \<and> \<not> brk" by simp
      with e month_start_less[OF v(3), of y] show ?thesis by (intro exI[of _ ?h]) simp
    qed
  qed
qed

lemma monthly_body_invalid:
  "datetime y m 1 0 = Inl e \<Longrightarrow> monthly_body now y m stop = Inr ([], stop, False)"
  by (simp add: monthly_body_def check_invalid_date_Inl)

lemma year_start_less: "year_start y + 1 < year_start (y + 1) - 1"
  by (simp add: year_start_def days_before_year_Suc)

lemma datetime_year_first:
  "1 \<le> y \<Longrightarrow> y \<le> 9999 \<Longrightarrow> datetime y 1 1 0 = Inr (year_start y)"
  by (simp add: datetime_first month_start_1)

lemma yearly_body_ok:
  assumes v: "1 \<le> y" "y \<le> 9999"
  shows "body_ok 1 now (year_start y) (year_start (y + 1)) (yearly_body now y)"
  unfolding body_ok_def
proof (intro conjI impI allI)
  note dt = datetime_year_first[OF v]
  fix stop assume "now - 5400 < year_start y"
  then show "yearly_body now y stop = Inr ([], stop, False)"
    using dt by (simp add: yearly_body_def check_invalid_date_Inr)
next
  note dt = datetime_year_first[OF v]
  let ?t = "year_start y" and ?h = "year_start (y + 1)"
  fix ws stop' brk
  assume a: "yearly_body now y False = Inr (ws, stop', brk)"
  show "\<exists>mid. tiles 1 ?t mid ws \<and>
          (mid = ?h \<and> \<not> stop' \<and> \<not> brk \<or> now - 5400 < ?h \<and> mid \<le> ?h)"
  proof (cases "now - 5400 < ?t")
    case True
    with a dt have "ws = []" by (simp add: yearly_body_def check_invalid_date_Inr)
    with True year_start_less[of y] show ?thesis by (intro exI[of _ ?t]) simp
  next
    case False
    from a dt False obtain nx where nx: "datetime (y + 1) 1 1 0 = Inr nx"
      by (cases "datetime (y + 1) 1 1 0") (simp_all add: yearly_body_def check_invalid_date_Inr)
    from a dt False nx obtain en where en: "plus_timedelta nx (- 1) = Inr en"
      by (cases "plus_timedelta nx (- 1)")
         (simp_all add: yearly_body_def check_invalid_date_Inr)
    from a dt False nx en have
      r: "(if now < en then Inr ([(?t, now)], True, True)
               else Inr ([(?t, en)], False, False)) = Inr (ws, stop', brk)"
      by (auto simp add: yearly_body_def check_invalid_date_Inr split: if_splits)
    from nx have nxh: "nx = ?h" by (simp add: datetime_Inr_iff month_start_1)
    from plus_timedelta_Inr[OF en] nxh have e: "en = ?h - 1" by simp
    show ?thesis
    proof (cases "now < en")
      case True
      with r have "ws = [(?t, now)]" by simp
      with True False e show ?thesis by (intro exI[of _ "now + 1"]) simp
    next
      case nc: False
      with r have "ws = [(?t, en)] \<and> \<not> stop' \<and> \<not> brk" by simp
      with e year_start_less[of y] show ?thesis by (intro exI[of _ ?h]) simp
    qed
  qed
qed

lemma yearly_body_invalid:
  "datetime y 1 1 0 = Inl e \<Longrightarrow> yearly_body now y stop = Inr ([], stop, False)"
  by (simp add: yearly_body_def check_invalid_date_Inl)

subsection \<open>The loops over the days of a month, the months of a year and the years\<close>

lemma days_loop_ok:
  assumes ok: "\<And>d. 1 \<le> d \<Longrightarrow> d \<le> days_in_month y m \<Longrightarrow>
                 body_ok g now (month_start y m + (d - 1) * 86400) (month_start y m + d * 86400) (b d)"
    and skip: "\<And>d stop. days_in_month y m < d \<Longrightarrow> b d stop = Inr ([], stop, False)"
    and m: "1 \<le> m"
  shows "body_ok g now (month_start y m) (month_start y (m + 1))
           (\<lambda>stop. inner (for_loop [1..31] b stop))"
proof -
  let ?dim = "days_in_month y m"
  let ?lo = "\<lambda>d. month_start y m + 86400 * min (d - 1) ?dim"
  let ?hi = "\<lambda>d. month_start y m + 86400 * min d ?dim"
  note bd = days_in_month_bounds[of y m]
  have "linked ?lo ?hi (?lo 1) [1..31] (?lo (31 + 1))"
    by (rule linked_upto) (auto simp: min_def)
  moreover have "?lo 1 = month_start y m" using bd by simp
  moreover have "?lo (31 + 1) = month_start y (m + 1)"
    using bd m by (simp add: month_start_Suc min_def)
  ultimately have lk: "linked ?lo ?hi (month_start y m) [1..31] (month_start y (m + 1))"
    by simp
  show ?thesis
  proof (rule for_loop_ok[OF lk])
    fix d :: int assume "d \<in> set [1..31]"
    then have d: "1 \<le> d" "d \<le> 31" by simp_all
    show "body_ok g now (?lo d) (?hi d) (b d)"
    proof (cases "d \<le> ?dim")
      case True
      with ok[OF d(1) True] show ?thesis by (simp add: min_def algebra_simps)
    next
      case False
      then have "?lo d = ?hi d" by (simp add: min_def)
      moreover have "body_ok g now (?hi d) (?hi d) (b d)"
        using False by (intro body_ok_empty skip) simp
      ultimately show ?thesis by simp
    qed
  qed
qed

lemma months_loop_ok:
  assumes ok: "\<And>m. 1 \<le> m \<Longrightarrow> m \<le> 12 \<Longrightarrow>
                 body_ok g now (month_start y m) (month_start y (m + 1)) (b m)"
  shows "body_ok g now (year_start y) (year_start (y + 1))
           (\<lambda>stop. inner (for_loop [1..12] b stop))"
proof -
  let ?lo = "month_start y"
  let ?hi = "\<lambda>m. month_start y (m + 1)"
  have "linked ?lo ?hi (?lo 1) [1..12] (?lo (12 + 1))"
  proof (rule linked_upto)
    fix x :: int assume "1 \<le> x"
    then show "?hi x = ?lo (x + 1) \<and> ?lo x \<le> ?lo (x + 1)"
      using days_in_month_bounds(1)[of y x] by (simp add: month_start_Suc)
  qed simp
  then have lk: "linked ?lo ?hi (year_start y) [1..12] (year_start (y + 1))"
    by (simp add: month_start_1 month_start_13)
  show ?thesis
    by (rule for_loop_ok[OF lk]) (simp add: ok)
qed

lemma years_loop_ok:
  assumes ok: "\<And>y. 1 \<le> y \<Longrightarrow> y \<le> 9999 \<Longrightarrow>
                 body_ok g now (year_start y) (year_start (y + 1)) (b y)"
    and skip: "\<And>y stop. 9999 < y \<Longrightarrow> b y stop = Inr ([], stop, False)"
    and sy: "1 \<le> sy" "sy \<le> ey"
  shows "body_ok g now (year_start (min sy 10000)) (year_start (min (ey + 1) 10000))
           (\<lambda>stop. inner (for_loop [sy..ey] b stop))"
proof -
  let ?lo = "\<lambda>y. year_start (min y 10000)"
  let ?hi = "\<lambda>y. year_start (min (y + 1) 10000)"
  have lk: "linked ?lo ?hi (?lo sy) [sy..ey] (?lo (ey + 1))"
  proof (rule linked_upto)
    fix x :: int
    have "?lo x \<le> ?lo (x + 1)"
    proof (cases "x \<le> 9999")
      case True
      with year_start_mono[of x] show ?thesis by (simp add: min_def)
    next
      case False
      then have "min x 10000 = 10000" "min (x + 1) 10000 = 10000" by simp_all
      then show ?thesis by simp
    qed
    then show "?hi x = ?lo (x + 1) \<and> ?lo x \<le> ?lo (x + 1)" by simp
  qed (use sy in simp)
  show ?thesis
  proof (rule for_loop_ok[OF lk])
    fix y :: int assume "y \<in> set [sy..ey]"
    with sy have y: "1 \<le> y" by simp
    show "body_ok g now (?lo y) (?hi y) (b y)"
    proof (cases "y \<le> 9999")
      case True
      with ok[OF y True] show ?thesis by (simp add: min_def)
    next
      case False
      then have "min y 10000 = 10000" "min (y + 1) 10000 = 10000" by simp_all
      then have "?lo y = ?hi y" by simp
      moreover have "body_ok g now (?hi y) (?hi y) (b y)"
        using False by (intro body_ok_empty skip) simp
      ultimately show ?thesis by simp
    qed
  qed
qed

subsection \<open>The windows one body appends\<close>

lemma hourly_body_window:
  "hourly_body now y m d h stop = Inr (ws, stop', brk) \<Longrightarrow> (s, e) \<in> set ws \<Longrightarrow>
     datetime y m d h = Inr s \<and> e = s + 3600 \<and> s + 5400 \<le> now"
  by (cases "datetime y m d h")
     (auto simp: hourly_body_def check_invalid_date_def split: sum.splits if_splits
           dest!: plus_timedelta_Inr)

lemma daily_body_window:
  "daily_body now y m d stop = Inr (ws, stop', brk) \<Longrightarrow> (s, e) \<in> set ws \<Longrightarrow>
     datetime y m d 0 = Inr s \<and> s + 5400 \<le> now \<and>
     (e = s + 86400 \<and> e \<le> now \<or> e = now - 3600 \<and> now < s + 86400)"
  by (cases "datetime y m d 0")
     (auto simp: daily_body_def check_invalid_date_def split: sum.splits if_splits
           dest!: plus_timedelta_Inr)

lemma monthly_body_window:
  assumes "monthly_body now y m stop = Inr (ws, stop', brk)" "(s, e) \<in> set ws"
  shows "datetime y m 1 0 = Inr s \<and> s + 5400 \<le> now \<and>
     (e = month_start y (m + 1) - 1 \<and> e \<le> now \<or> e = now \<and> now < month_start y (m + 1) - 1)"
proof (cases "datetime y m 1 0")
  case (Inl x)
  with assms show ?thesis by (simp add: monthly_body_def check_invalid_date_def)
next
  case (Inr t)
  then have v: "1 \<le> m" "m \<le> 12" by (simp_all add: datetime_Inr_iff)
  from assms Inr have c: "\<not> now - 5400 < t"
    by (auto simp: monthly_body_def check_invalid_date_Inr)
  let ?nd = "datetime (if m + 1 > 12 then y + 1 else y) (if m + 1 > 12 then 1 else m + 1) 1 0"
  from assms(1) Inr c obtain nx where nx: "?nd = Inr nx"
    by (cases ?nd) (simp_all add: monthly_body_def check_invalid_date_Inr Let_def)
  from assms(1) Inr c nx obtain en where en: "plus_timedelta nx (- 1) = Inr en"
    by (cases "plus_timedelta nx (- 1)")
       (simp_all add: monthly_body_def check_invalid_date_Inr Let_def)
  from next_month_start[OF v nx] plus_timedelta_Inr[OF en]
  have e: "en = month_start y (m + 1) - 1" by simp
  from assms Inr c nx en have "s = t \<and> (if now < en then e = now else e = en)"
    by (auto simp add: monthly_body_def check_invalid_date_Inr Let_def split: if_splits)
  with Inr c e show ?thesis by (auto split: if_splits)
qed

lemma yearly_body_window:
  assumes "yearly_body now y stop = Inr (ws, stop', brk)" "(s, e) \<in> set ws"
  shows "datetime y 1 1 0 = Inr s \<and> s + 5400 \<le> now \<and>
     (e = year_start (y + 1) - 1 \<and> e \<le> now \<or> e = now \<and> now < year_start (y + 1) - 1)"
proof (cases "datetime y 1 1 0")
  case (Inl x)
  with assms show ?thesis by (simp add: yearly_body_def check_invalid_date_def)
next
  case (Inr t)
  from assms Inr have c: "\<not> now - 5400 < t"
    by (auto simp: yearly_body_def check_invalid_date_Inr)
  from assms(1) Inr c obtain nx where nx: "datetime (y + 1) 1 1 0 = Inr nx"
    by (cases "datetime (y + 1) 1 1 0") (simp_all add: yearly_body_def check_invalid_date_Inr)
  from assms(1) Inr c nx obtain en where en: "plus_timedelta nx (- 1) = Inr en"
    by (cases "plus_timedelta nx (- 1)")
       (simp_all add: yearly_body_def check_invalid_date_Inr)
  from nx have "nx = year_start (y + 1)" by (simp add: datetime_Inr_iff month_start_1)
  with plus_timedelta_Inr[OF en] have e: "en = year_start (y + 1) - 1" by simp
  from assms Inr c nx en have "s = t \<and> (if now < en then e = now else e = en)"
    by (auto simp add: yearly_body_def check_invalid_date_Inr split: if_splits)
  with Inr c e show ?thesis by (auto split: if_splits)
qed

lemma inner_for_loop_pointwise:
  "inner (for_loop xs body stop) = Inr (ws, stop', brk) \<Longrightarrow>
   (\<forall>x\<in>set xs. \<forall>stop ws stop' brk. body x stop = Inr (ws, stop', brk) \<longrightarrow> (\<forall>w\<in>set ws. Q w)) \<Longrightarrow>
   \<forall>w\<in>set ws. Q w"
  by (metis for_loop_pointwise inner_eq_Inr)

subsection \<open>Hourly windows\<close>

lemma datetime_invalid_hour:
  "datetime y m d 0 = Inl e \<Longrightarrow> datetime y m d h = Inl ValueError"
  by (auto simp: datetime_def split: if_splits)

lemma datetime_invalid_day:
  "days_in_month y m < d \<Longrightarrow> datetime y m d h = Inl ValueError"
  by (simp add: datetime_def)

lemma datetime_invalid_year:
  "9999 < y \<Longrightarrow> datetime y m d h = Inl ValueError"
  by (simp add: datetime_def)

lemma hours_loop_ok:
  assumes v: "1 \<le> y" "y \<le> 9999" "1 \<le> m" "m \<le> 12" "1 \<le> d" "d \<le> days_in_month y m"
  shows "body_ok 0 now (month_start y m + (d - 1) * 86400) (month_start y m + d * 86400)
           (\<lambda>stop. inner (for_loop [0..23] (hourly_body now y m d) stop))"
proof -
  let ?D = "month_start y m + (d - 1) * 86400"
  let ?lo = "\<lambda>h. ?D + 3600 * h"
  let ?hi = "\<lambda>h. ?D + 3600 * (h + 1)"
  have "linked ?lo ?hi (?lo 0) [0..23] (?lo (23 + 1))"
    by (rule linked_upto) simp_all
  then have lk: "linked ?lo ?hi ?D [0..23] (month_start y m + d * 86400)"
    by (simp add: algebra_simps)
  show ?thesis
  proof (rule for_loop_ok[OF lk])
    fix h :: int assume "h \<in> set [0..23]"
    then have "datetime y m d h = Inr (?lo h)"
      using v by (simp add: datetime_Inr_iff)
    from hourly_body_ok[OF this, of now]
    show "body_ok 0 now (?lo h) (?hi h) (hourly_body now y m d h)"
      by (simp add: algebra_simps)
  qed
qed

lemma hours_loop_skip:
  assumes "\<And>h. datetime y m d h = Inl ValueError"
  shows "inner (for_loop [0..23] (hourly_body now y m d) stop) = Inr ([], stop, False)"
proof -
  have "for_loop [0..23] (hourly_body now y m d) stop = Inr ([], stop)"
    by (rule for_loop_all_skip) (simp add: hourly_body_invalid assms)
  then show ?thesis by simp
qed

lemma hourly_days_ok:
  assumes v: "1 \<le> y" "y \<le> 9999" "1 \<le> m" "m \<le> 12"
  shows "body_ok 0 now (month_start y m) (month_start y (m + 1)) (hourly_days now y m)"
proof (rule days_loop_ok)
  fix d assume "1 \<le> d" "d \<le> days_in_month y m"
  then show "body_ok 0 now (month_start y m + (d - 1) * 86400) (month_start y m + d * 86400)
           (\<lambda>stop. inner (for_loop [0..23] (hourly_body now y m d) stop))"
    by (rule hours_loop_ok[OF v])
next
  fix d stop assume "days_in_month y m < d"
  then show "inner (for_loop [0..23] (hourly_body now y m d) stop) = Inr ([], stop, False)"
    by (simp add: hours_loop_skip datetime_invalid_day)
qed (rule v(3))

lemma hourly_months_ok:
  assumes v: "1 \<le> y" "y \<le> 9999"
  shows "body_ok 0 now (year_start y) (year_start (y + 1)) (hourly_months now y)"
  by (rule months_loop_ok) (simp add: hourly_days_ok v)

lemma hourly_months_skip:
  assumes "9999 < y"
  shows "hourly_months now y stop = Inr ([], stop, False)"
proof -
  have d: "\<And>m stop. hourly_days now y m stop = Inr ([], stop, False)"
  proof -
    fix m stop
    have "for_loop [1..31] (\<lambda>day stop. inner (for_loop [0..23] (hourly_body now y m day) stop)) stop
            = Inr ([], stop)"
      by (rule for_loop_all_skip) (simp add: hours_loop_skip datetime_invalid_year assms)
    then show "hourly_days now y m stop = Inr ([], stop, False)" by simp
  qed
  have "for_loop [1..12] (\<lambda>month stop. hourly_days now y month stop) stop = Inr ([], stop)"
    by (rule for_loop_all_skip) (simp add: d)
  then show ?thesis by simp
qed

lemma hourly_ok:
  assumes "1 \<le> sy" "sy \<le> ey"
  shows "body_ok 0 now (year_start (min sy 10000)) (year_start (min (ey + 1) 10000))
           (\<lambda>stop. inner (for_loop [sy..ey] (\<lambda>year stop. hourly_months now year stop) stop))"
  by (rule years_loop_ok) (simp_all add: hourly_months_ok hourly_months_skip assms)

lemma body_ok_tiles:
  "body_ok g now lo hi (\<lambda>stop. inner (f stop)) \<Longrightarrow> f False = Inr (ws, stop') \<Longrightarrow>
     \<exists>mid. tiles g lo mid ws"
  unfolding body_ok_def by (metis inner_Inr)

lemma hourly_tiles:
  assumes "1 \<le> sy" "sy \<le> ey" "hourly now sy ey = Inr (ws, stop')"
  shows "\<exists>mid. tiles 0 (year_start (min sy 10000)) mid ws"
  using body_ok_tiles[OF hourly_ok[OF assms(1,2)]] assms(3) unfolding hourly_def by blast

lemma for_loop_pointwiseI:
  assumes "for_loop xs body stop = Inr (ws, stop')"
    and "\<And>x stop ws stop' brk. x \<in> set xs \<Longrightarrow> body x stop = Inr (ws, stop', brk) \<Longrightarrow>
           \<forall>w\<in>set ws. Q w"
  shows "\<forall>w\<in>set ws. Q w"
  using for_loop_pointwise[OF assms(1), of Q] assms(2) by blast

lemma inner_for_loop_pointwiseI:
  assumes "inner (for_loop xs body stop) = Inr (ws, stop', brk)"
    and "\<And>x stop ws stop' brk. x \<in> set xs \<Longrightarrow> body x stop = Inr (ws, stop', brk) \<Longrightarrow>
           \<forall>w\<in>set ws. Q w"
  shows "\<forall>w\<in>set ws. Q w"
  using inner_for_loop_pointwise[OF assms(1), of Q] assms(2) by blast

lemma hourly_windows:
  assumes "hourly now sy ey = Inr (ws, stop')"
  shows "\<forall>(s, e)\<in>set ws. (\<exists>y m d h. sy \<le> y \<and> y \<le> ey \<and> datetime y m d h = Inr s) \<and>
            e = s + 3600 \<and> s + 5400 \<le> now"
proof -
  let ?Q = "\<lambda>(s, e). (\<exists>y m d h. sy \<le> y \<and> y \<le> ey \<and> datetime y m d h = Inr s) \<and>
            e = s + 3600 \<and> s + 5400 \<le> now"
  show ?thesis
  proof (rule for_loop_pointwiseI[OF assms[unfolded hourly_def]])
    fix year stop ws1 stop1 brk1
    assume y: "year \<in> set [sy..ey]" and b: "hourly_months now year stop = Inr (ws1, stop1, brk1)"
    show "\<forall>w\<in>set ws1. ?Q w"
    proof (rule inner_for_loop_pointwiseI[OF b])
      fix month stop ws2 stop2 brk2
      assume b2: "hourly_days now year month stop = Inr (ws2, stop2, brk2)"
      show "\<forall>w\<in>set ws2. ?Q w"
      proof (rule inner_for_loop_pointwiseI[OF b2])
        fix day stop ws3 stop3 brk3
        assume b3: "inner (for_loop [0..23] (hourly_body now year month day) stop)
                      = Inr (ws3, stop3, brk3)"
        show "\<forall>w\<in>set ws3. ?Q w"
        proof (rule inner_for_loop_pointwiseI[OF b3], rule ballI)
          fix hour stop ws4 stop4 brk4 w
          assume b4: "hourly_body now year month day hour stop = Inr (ws4, stop4, brk4)"
            and w: "w \<in> set ws4"
          obtain s e where se: "w = (s, e)" by (cases w)
          from hourly_body_window[OF b4 w[unfolded se]] y se
          show "?Q w" by auto
        qed
      qed
    qed
  qed
qed

subsection \<open>Daily windows\<close>

lemma daily_days_ok:
  assumes v: "1 \<le> y" "y \<le> 9999" "1 \<le> m" "m \<le> 12"
  shows "body_ok 0 now (month_start y m) (month_start y (m + 1)) (daily_days now y m)"
proof (rule days_loop_ok)
  fix d assume d: "1 \<le> d" "d \<le> days_in_month y m"
  with v have "datetime y m d 0 = Inr (month_start y m + (d - 1) * 86400)"
    by (simp add: datetime_Inr_iff)
  from daily_body_ok[OF this, of now]
  show "body_ok 0 now (month_start y m + (d - 1) * 86400) (month_start y m + d * 86400)
           (daily_body now y m d)"
    by (simp add: algebra_simps)
next
  fix d stop assume "days_in_month y m < d"
  then show "daily_body now y m d stop = Inr ([], stop, False)"
    by (simp add: daily_body_invalid datetime_invalid_day)
qed (rule v(3))

lemma daily_months_ok:
  assumes v: "1 \<le> y" "y \<le> 9999"
  shows "body_ok 0 now (year_start y) (year_start (y + 1)) (daily_months now y)"
  by (rule months_loop_ok) (simp add: daily_days_ok v)

lemma daily_months_skip:
  assumes "9999 < y"
  shows "daily_months now y stop = Inr ([], stop, False)"
proof -
  have d: "\<And>m stop. daily_days now y m stop = Inr ([], stop, False)"
  proof -
    fix m stop
    have "for_loop [1..31] (daily_body now y m) stop = Inr ([], stop)"
      by (rule for_loop_all_skip) (simp add: daily_body_invalid datetime_invalid_year assms)
    then show "daily_days now y m stop = Inr ([], stop, False)" by simp
  qed
  have "for_loop [1..12] (\<lambda>month stop. daily_days now y month stop) stop = Inr ([], stop)"
    by (rule for_loop_all_skip) (simp add: d)
  then show ?thesis by simp
qed

lemma daily_ok:
  assumes "1 \<le> sy" "sy \<le> ey"
  shows "body_ok 0 now (year_start (min sy 10000)) (year_start (min (ey + 1) 10000))
           (\<lambda>stop. inner (for_loop [sy..ey] (\<lambda>year stop. daily_months now year stop) stop))"
  by (rule years_loop_ok) (simp_all add: daily_months_ok daily_months_skip assms)

lemma daily_tiles:
  assumes "1 \<le> sy" "sy \<le> ey" "daily now sy ey = Inr (ws, stop')"
  shows "\<exists>mid. tiles 0 (year_start (min sy 10000)) mid ws"
  using body_ok_tiles[OF daily_ok[OF assms(1,2)]] assms(3) unfolding daily_def by blast

lemma daily_windows:
  assumes "daily now sy ey = Inr (ws, stop')"
  shows "\<forall>(s, e)\<in>set ws. (\<exists>y m d. sy \<le> y \<and> y \<le> ey \<and> datetime y m d 0 = Inr s) \<and>
            s + 5400 \<le> now \<and>
            (e = s + 86400 \<and> e \<le> now \<or> e = now - 3600 \<and> now < s + 86400)"
proof -
  let ?Q = "\<lambda>(s, e). (\<exists>y m d. sy \<le> y \<and> y \<le> ey \<and> datetime y m d 0 = Inr s) \<and>
            s + 5400 \<le> now \<and>
            (e = s + 86400 \<and> e \<le> now \<or> e = now - 3600 \<and> now < s + 86400)"
  show ?thesis
  proof (rule for_loop_pointwiseI[OF assms[unfolded daily_def]])
    fix year stop ws1 stop1 brk1
    assume y: "year \<in> set [sy..ey]" and b: "daily_months now year stop = Inr (ws1, stop1, brk1)"
    show "\<forall>w\<in>set ws1. ?Q w"
    proof (rule inner_for_loop_pointwiseI[OF b])
      fix month stop ws2 stop2 brk2
      assume b2: "daily_days now year month stop = Inr (ws2, stop2, brk2)"
      show "\<forall>w\<in>set ws2. ?Q w"
      proof (rule inner_for_loop_pointwiseI[OF b2], rule ballI)
        fix day stop ws4 stop4 brk4 w
        assume b4: "daily_body now year month day stop = Inr (ws4, stop4, brk4)"
          and w: "w \<in> set ws4"
        obtain s e where se: "w = (s, e)" by (cases w)
        from daily_body_window[OF b4 w[unfolded se]] y se
        show "?Q w" by auto
      qed
    qed
  qed
qed

subsection \<open>Monthly windows\<close>

lemma monthly_months_ok:
  assumes v: "1 \<le> y" "y \<le> 9999"
  shows "body_ok 1 now (year_start y) (year_start (y + 1)) (monthly_months now y)"
  by (rule months_loop_ok) (simp add: monthly_body_ok v)

lemma monthly_months_skip:
  assumes "9999 < y"
  shows "monthly_months now y stop = Inr ([], stop, False)"
proof -
  have "for_loop [1..12] (monthly_body now y) stop = Inr ([], stop)"
    by (rule for_loop_all_skip) (simp add: monthly_body_invalid datetime_invalid_year assms)
  then show ?thesis by simp
qed

lemma monthly_ok:
  assumes "1 \<le> sy" "sy \<le> ey"
  shows "body_ok 1 now (year_start (min sy 10000)) (year_start (min (ey + 1) 10000))
           (\<lambda>stop. inner (for_loop [sy..ey] (\<lambda>year stop. monthly_months now year stop) stop))"
  by (rule years_loop_ok) (simp_all add: monthly_months_ok monthly_months_skip assms)

lemma monthly_tiles:
  assumes "1 \<le> sy" "sy \<le> ey" "monthly now sy ey = Inr (ws, stop')"
  shows "\<exists>mid. tiles 1 (year_start (min sy 10000)) mid ws"
  using body_ok_tiles[OF monthly_ok[OF assms(1,2)]] assms(3) unfolding monthly_def by blast

lemma monthly_windows:
  assumes "monthly now sy ey = Inr (ws, stop')"
  shows "\<forall>(s, e)\<in>set ws. s + 5400 \<le> now \<and>
           (\<exists>y m. sy \<le> y \<and> y \<le> ey \<and> datetime y m 1 0 = Inr s \<and>
              (e = month_start y (m + 1) - 1 \<and> e \<le> now \<or>
               e = now \<and> now < month_start y (m + 1) - 1))"
proof -
  let ?Q = "\<lambda>(s, e). s + 5400 \<le> now \<and>
           (\<exists>y m. sy \<le> y \<and> y \<le> ey \<and> datetime y m 1 0 = Inr s \<and>
              (e = month_start y (m + 1) - 1 \<and> e \<le> now \<or>
               e = now \<and> now < month_start y (m + 1) - 1))"
  show ?thesis
  proof (rule for_loop_pointwiseI[OF assms[unfolded monthly_def]])
    fix year stop ws1 stop1 brk1
    assume y: "year \<in> set [sy..ey]" and b: "monthly_months now year stop = Inr (ws1, stop1, brk1)"
    show "\<forall>w\<in>set ws1. ?Q w"
    proof (rule inner_for_loop_pointwiseI[OF b], rule ballI)
      fix month stop ws4 stop4 brk4 w
      assume b4: "monthly_body now year month stop = Inr (ws4, stop4, brk4)"
        and w: "w \<in> set ws4"
      obtain s e where se: "w = (s, e)" by (cases w)
      from monthly_body_window[OF b4 w[unfolded se]] y se
      show "?Q w" by auto
    qed
  qed
qed

subsection \<open>Yearly windows\<close>

lemma yearly_ok:
  assumes "1 \<le> sy" "sy \<le> ey"
  shows "body_ok 1 now (year_start (min sy 10000)) (year_start (min (ey + 1) 10000))
           (\<lambda>stop. inner (for_loop [sy..ey] (yearly_body now) stop))"
  by (rule years_loop_ok)
     (simp_all add: yearly_body_ok yearly_body_invalid datetime_invalid_year assms)

lemma yearly_tiles:
  assumes "1 \<le> sy" "sy \<le> ey" "yearly now sy ey = Inr (ws, stop')"
  shows "\<exists>mid. tiles 1 (year_start (min sy 10000)) mid ws"
  using body_ok_tiles[OF yearly_ok[OF assms(1,2)]] assms(3) unfolding yearly_def by blast

lemma yearly_windows:
  assumes "yearly now sy ey = Inr (ws, stop')"
  shows "\<forall>(s, e)\<in>set ws. s + 5400 \<le> now \<and>
           (\<exists>y. sy \<le> y \<and> y \<le> ey \<and> datetime y 1 1 0 = Inr s \<and>
              (e = year_start (y + 1) - 1 \<and> e \<le> now \<or>
               e = now \<and> now < year_start (y + 1) - 1))"
proof (rule for_loop_pointwiseI[OF assms[unfolded yearly_def]], rule ballI)
  fix year stop ws4 stop4 brk4 w
  assume y: "year \<in> set [sy..ey]" and b4: "yearly_body now year stop = Inr (ws4, stop4, brk4)"
    and w: "w \<in> set ws4"
  obtain s e where se: "w = (s, e)" by (cases w)
  from yearly_body_window[OF b4 w[unfolded se]] y se
  show "case w of (s, e) \<Rightarrow> s + 5400 \<le> now \<and>
           (\<exists>y. sy \<le> y \<and> y \<le> ey \<and> datetime y 1 1 0 = Inr s \<and>
              (e = year_start (y + 1) - 1 \<and> e \<le> now \<or>
               e = now \<and> now < year_start (y + 1) - 1))" by auto
qed

subsection \<open>What a tiling gives\<close>

lemma tiles_start_less_end: "tiles g lo mid ws \<Longrightarrow> \<forall>(s, e)\<in>set ws. s < e"
  by (induction ws arbitrary: lo) fastforce+

lemma tiles_lower: "0 \<le> g \<Longrightarrow> tiles g lo mid ws \<Longrightarrow> \<forall>(s, e)\<in>set ws. lo \<le> s"
proof (induction ws arbitrary: lo)
  case Nil
  then show ?case by simp
next
  case (Cons w ws)
  obtain s e where w: "w = (s, e)" by (cases w)
  from Cons.prems w have t: "s = lo" "s < e" "tiles g (e + g) mid ws" by simp_all
  from Cons.IH[OF Cons.prems(1) t(3)] have "\<forall>(s', e')\<in>set ws. e + g \<le> s'" .
  with t Cons.prems(1) w show ?case by fastforce
qed

lemma tiles_successively:
  "tiles g lo mid ws \<Longrightarrow> successively (\<lambda>a b. snd a + g = fst b) ws"
proof (induction ws arbitrary: lo)
  case Nil
  then show ?case by simp
next
  case (Cons w ws)
  obtain s e where w: "w = (s, e)" by (cases w)
  from Cons.prems w have t: "tiles g (e + g) mid ws" by simp
  show ?case
  proof (cases ws)
    case Nil
    then show ?thesis by simp
  next
    case (Cons v vs)
    obtain s' e' where v: "v = (s', e')" by (cases v)
    from t Cons v have "s' = e + g" by simp
    with Cons.IH[OF t] \<open>ws = v # vs\<close> v w show ?thesis by simp
  qed
qed

lemma tiles_sorted:
  "0 \<le> g \<Longrightarrow> tiles g lo mid ws \<Longrightarrow> sorted_wrt (\<lambda>a b. snd a + g \<le> fst b) ws"
proof (induction ws arbitrary: lo)
  case Nil
  then show ?case by simp
next
  case (Cons w ws)
  obtain s e where w: "w = (s, e)" by (cases w)
  from Cons.prems w have t: "tiles g (e + g) mid ws" by simp
  from tiles_lower[OF Cons.prems(1) t] have "\<forall>(s', e')\<in>set ws. e + g \<le> s'" .
  with Cons.IH[OF Cons.prems(1) t] w show ?case by auto
qed

subsection \<open>The inverse of the ordinal\<close>

lemma md_all_common: "list_all (md_ok False) [0..364]"
  by code_simp

lemma md_all_leap: "list_all (md_ok True) [0..364]"
  by code_simp

lemma days_in_month_dim': "days_in_month y m = dim' (is_leap y) m"
  by (simp add: days_in_month_def dim'_def)

lemma days_before_month_dim':
  "days_before_month y m = sum_list (map (dim' (is_leap y)) [1..m - 1])"
  by (simp add: days_before_month_def days_in_month_dim'[abs_def])

lemma month_and_day_correct:
  assumes "0 \<le> r" "r \<le> 364" "month_and_day r (is_leap y) = (m, d)"
  shows "1 \<le> m \<and> m \<le> 12 \<and> 1 \<le> d \<and> d \<le> days_in_month y m \<and>
         days_before_month y m + d = r + 1"
proof -
  have r: "r \<in> set [0..364]" using assms by simp
  have "md_ok (is_leap y) r"
  proof (cases "is_leap y")
    case True
    with md_all_leap r show ?thesis by (simp add: list_all_iff)
  next
    case False
    with md_all_common r show ?thesis by (simp add: list_all_iff)
  qed
  with assms(3) show ?thesis
    by (simp add: md_ok_def days_in_month_dim' days_before_month_dim')
qed

lemma mod_top: "1 \<le> x \<Longrightarrow> x \<le> k \<Longrightarrow> (x::int) mod k = 0 \<longleftrightarrow> x = k"
  by (cases "x = k") (simp_all add: mod_pos_pos_trivial)

lemma e4: "0 \<le> d \<Longrightarrow> d \<le> 3 \<Longrightarrow> ((d::int) + 1) mod 4 = 0 \<longleftrightarrow> d = 3"
  using mod_top[of "d + 1" 4] by auto

lemma l100:
  fixes c d :: int
  assumes "0 \<le> c" "c \<le> 24" "0 \<le> d" "d \<le> 3"
  shows "4 * c + d + 1 = 100 \<longleftrightarrow> c = 24 \<and> d = 3"
proof
  assume a: "4 * c + d + 1 = 100"
  have "c = 24" using a assms by linarith
  with a show "c = 24 \<and> d = 3" by simp
qed simp

lemma e100: "0 \<le> c \<Longrightarrow> c \<le> 24 \<Longrightarrow> 0 \<le> d \<Longrightarrow> d \<le> 3 \<Longrightarrow>
   (4 * c + (d::int) + 1) mod 100 = 0 \<longleftrightarrow> c = 24 \<and> d = 3"
  using mod_top[of "4 * c + d + 1" 100] l100[of c d] by simp

lemma l400:
  fixes b c d :: int
  assumes "0 \<le> b" "b \<le> 3" "0 \<le> c" "c \<le> 24" "0 \<le> d" "d \<le> 3"
  shows "100 * b + 4 * c + d + 1 = 400 \<longleftrightarrow> b = 3 \<and> c = 24 \<and> d = 3"
proof
  assume a: "100 * b + 4 * c + d + 1 = 400"
  have b: "b = 3" using a assms by linarith
  with a have "4 * c + d + 1 = 100" by simp
  with l100[OF assms(3-6)] b show "b = 3 \<and> c = 24 \<and> d = 3" by simp
qed simp

lemma e400: "0 \<le> b \<Longrightarrow> b \<le> 3 \<Longrightarrow> 0 \<le> c \<Longrightarrow> c \<le> 24 \<Longrightarrow> 0 \<le> d \<Longrightarrow> d \<le> 3 \<Longrightarrow>
   (100 * b + 4 * c + (d::int) + 1) mod 400 = 0 \<longleftrightarrow> b = 3 \<and> c = 24 \<and> d = 3"
  using mod_top[of "100 * b + 4 * c + d + 1" 400] l400[of b c d] by simp

lemma days_before_year_decomp:
  assumes "0 \<le> b" "b \<le> 3" "0 \<le> c" "c \<le> 24" "0 \<le> d" "d \<le> 3"
  shows "days_before_year (400 * a + 100 * b + 4 * c + d + 1)
           = 146097 * a + 36524 * b + 1461 * c + 365 * d"
proof -
  let ?Y = "400 * a + 100 * b + 4 * c + d"
  have d4: "?Y div 4 = 100 * a + 25 * b + c"
    using assms by (intro int_div_pos_eq[of _ _ _ d]) auto
  have d100: "?Y div 100 = 4 * a + b"
    using assms by (intro int_div_pos_eq[of _ _ _ "4 * c + d"]) auto
  have d400: "?Y div 400 = a"
    using assms by (intro int_div_pos_eq[of _ _ _ "100 * b + 4 * c + d"]) auto
  show ?thesis
    unfolding days_before_year_def by (simp add: d4 d100 d400)
qed

lemma is_leap_decomp:
  assumes "0 \<le> b" "b \<le> 3" "0 \<le> c" "c \<le> 24" "0 \<le> d" "d \<le> 3"
  shows "is_leap (400 * a + 100 * b + 4 * c + d + 1) \<longleftrightarrow> d = 3 \<and> (c \<noteq> 24 \<or> b = 3)"
proof -
  let ?Y = "400 * a + 100 * b + 4 * c + d + 1"
  have m4: "?Y mod 4 = (d + 1) mod 4"
  proof -
    have "?Y = (d + 1) + 4 * (100 * a + 25 * b + c)" by simp
    then show ?thesis by (metis mod_mult_self2)
  qed
  have m100: "?Y mod 100 = (4 * c + d + 1) mod 100"
  proof -
    have "?Y = (4 * c + d + 1) + 100 * (4 * a + b)" by simp
    then show ?thesis by (metis mod_mult_self2)
  qed
  have m400: "?Y mod 400 = (100 * b + 4 * c + d + 1) mod 400"
  proof -
    have "?Y = (100 * b + 4 * c + d + 1) + 400 * a" by simp
    then show ?thesis by (metis mod_mult_self2)
  qed
  note e4 = e4[OF assms(5,6)]
  note e100 = e100[OF assms(3-6)]
  note e400 = e400[OF assms]
  show ?thesis
    unfolding is_leap_def m4 m100 m400 e4 e100 e400 by auto
qed

lemma days_before_year_mono: "y \<le> y' \<Longrightarrow> days_before_year y \<le> days_before_year y'"
proof (induction y' rule: int_ge_induct)
  case base
  show ?case by simp
next
  case (step i)
  then show ?case by (simp add: days_before_year_Suc)
qed

lemma days_before_year_10000: "days_before_year 10000 = 3652059"
  by (simp add: days_before_year_def)

lemma year_bound:
  assumes "days_before_year y < 3652059"
  shows "y \<le> 9999"
proof (rule ccontr)
  assume "\<not> y \<le> 9999"
  then have "10000 \<le> y" by simp
  from days_before_year_mono[OF this] assms show False
    by (simp add: days_before_year_10000)
qed

lemma ymd2ord_last_day: "ymd2ord y 12 31 = days_before_year (y + 1)"
proof -
  have "days_before_month y 13 = days_before_month y 12 + 31"
    using days_before_month_Suc[of 12 y] by (simp add: days_in_month_def)
  then show ?thesis
    by (simp add: ymd2ord_def days_before_year_Suc days_before_month_13)
qed

lemma ord2ymd_correct:
  assumes n: "1 \<le> n" "n \<le> max_ordinal" and o: "ord2ymd n = (y, m, d)"
  shows "1 \<le> y \<and> y \<le> 9999 \<and> 1 \<le> m \<and> m \<le> 12 \<and> 1 \<le> d \<and> d \<le> days_in_month y m \<and>
         ymd2ord y m d = n"
proof -
  define a where "a = (n - 1) div 146097"
  define r400 where "r400 = (n - 1) mod 146097"
  define b where "b = r400 div 36524"
  define r100 where "r100 = r400 mod 36524"
  define c where "c = r100 div 1461"
  define r4 where "r4 = r100 mod 1461"
  define dd where "dd = r4 div 365"
  define r where "r = r4 mod 365"
  have e0: "n - 1 = 146097 * a + r400" by (simp add: a_def r400_def)
  have e1: "r400 = 36524 * b + r100" by (simp add: b_def r100_def)
  have e2: "r100 = 1461 * c + r4" by (simp add: c_def r4_def)
  have e3: "r4 = 365 * dd + r" by (simp add: dd_def r_def)
  have b400: "0 \<le> r400" "r400 < 146097" by (simp_all add: r400_def)
  have b100: "0 \<le> r100" "r100 < 36524" by (simp_all add: r100_def)
  have b4: "0 \<le> r4" "r4 < 1461" by (simp_all add: r4_def)
  have br: "0 \<le> r" "r < 365" by (simp_all add: r_def)
  have a0: "0 \<le> a" using n by (simp add: a_def pos_imp_zdiv_nonneg_iff)
  have bb: "0 \<le> b" using b400 by (simp add: b_def pos_imp_zdiv_nonneg_iff)
  have cc: "0 \<le> c" using b100 by (simp add: c_def pos_imp_zdiv_nonneg_iff)
  have d0: "0 \<le> dd" using b4 by (simp add: dd_def pos_imp_zdiv_nonneg_iff)
  have b4': "b \<le> 4" using e1 b400 b100 by linarith
  have c24: "c \<le> 24" using e2 b100 b4 by linarith
  have d4: "dd \<le> 4" using e3 b4 br by linarith
  have unfold: "ord2ymd n =
      (if dd = 4 \<or> b = 4 then (a * 400 + 1 + b * 100 + c * 4 + dd - 1, 12, 31)
       else (a * 400 + 1 + b * 100 + c * 4 + dd,
             month_and_day r (dd = 3 \<and> (c \<noteq> 24 \<or> b = 3))))"
    by (simp add: ord2ymd_def Let_def a_def r400_def b_def r100_def c_def r4_def dd_def r_def)
  show ?thesis
  proof (cases "b = 4")
    case True
    with e1 b400 b100 have z: "r100 = 0" by linarith
    with e2 cc b4 have "c = 0" "r4 = 0" by linarith+
    with e3 d0 br have "dd = 0" "r = 0" by linarith+
    with unfold True o \<open>c = 0\<close> have y: "y = 400 * (a + 1)" "m = 12" "d = 31" by simp_all
    have nn: "n = 146097 * (a + 1)" using e0 e1 True z by simp
    have "days_before_year (400 * (a + 1) + 100 * 0 + 4 * 0 + 0 + 1) = 146097 * (a + 1) + 36524 * 0 + 1461 * 0 + 365 * 0"
      by (rule days_before_year_decomp) simp_all
    then have dby: "days_before_year (y + 1) = n" using y nn by simp
    have "days_before_year y < 3652059"
      using dby days_before_year_Suc[of y] n by (simp add: max_ordinal_def split: if_splits)
    from year_bound[OF this] y a0 dby show ?thesis
      by (simp add: ymd2ord_last_day days_in_month_def)
  next
    case nb: False
    with b4' have b3: "b \<le> 3" by simp
    show ?thesis
    proof (cases "dd = 4")
      case True
      with e3 b4 br have rz: "r = 0" by linarith
      from True e3 rz e2 b100 have c23: "c \<le> 23" by linarith
      from unfold True o have y: "y = 400 * a + 100 * b + 4 * (c + 1)" "m = 12" "d = 31"
        by simp_all
      have nn: "n = 146097 * a + 36524 * b + 1461 * (c + 1)" using e0 e1 e2 e3 True rz by simp
      have "days_before_year (400 * a + 100 * b + 4 * (c + 1) + 0 + 1)
              = 146097 * a + 36524 * b + 1461 * (c + 1) + 365 * 0"
        using bb b3 cc c23 by (intro days_before_year_decomp) simp_all
      then have dby: "days_before_year (y + 1) = n" using y nn by simp
      have "days_before_year y < 3652059"
        using dby days_before_year_Suc[of y] n by (simp add: max_ordinal_def split: if_splits)
      from year_bound[OF this] y a0 bb cc dby show ?thesis
        by (simp add: ymd2ord_last_day days_in_month_def)
    next
      case False
      with d4 have d3: "dd \<le> 3" by simp
      from unfold nb False o have y: "y = 400 * a + 100 * b + 4 * c + dd + 1"
        and md: "month_and_day r (dd = 3 \<and> (c \<noteq> 24 \<or> b = 3)) = (m, d)"
        by simp_all
      have lp: "is_leap y \<longleftrightarrow> dd = 3 \<and> (c \<noteq> 24 \<or> b = 3)"
        unfolding y by (rule is_leap_decomp[OF bb b3 cc c24 d0 d3])
      have dby: "days_before_year y = 146097 * a + 36524 * b + 1461 * c + 365 * dd"
        unfolding y by (rule days_before_year_decomp[OF bb b3 cc c24 d0 d3])
      then have dby': "days_before_year y = n - 1 - r" using e0 e1 e2 e3 by simp
      from md lp have "month_and_day r (is_leap y) = (m, d)" by simp
      from month_and_day_correct[OF br(1) _ this] br(2)
      have mdc: "1 \<le> m" "m \<le> 12" "1 \<le> d" "d \<le> days_in_month y m"
        "days_before_month y m + d = r + 1" by simp_all
      have "days_before_year y < 3652059" using dby' n br by (simp add: max_ordinal_def)
      from year_bound[OF this] have "y \<le> 9999" .
      moreover have "1 \<le> y" using y a0 bb cc d0 by simp
      moreover have "ymd2ord y m d = n" using dby' mdc(5) by (simp add: ymd2ord_def)
      ultimately show ?thesis using mdc by simp
    qed
  qed
qed

lemma datetime_roundtrip:
  assumes "0 \<le> t" "t < max_ordinal * 86400" "t mod 86400 = 0"
  shows "datetime (year_of t) (month_of t) (day_of t) 0 = Inr t"
proof -
  let ?n = "t div 86400 + 1"
  have n: "1 \<le> ?n" "?n \<le> max_ordinal"
    using assms by (simp_all add: pos_imp_zdiv_nonneg_iff max_ordinal_def)
  have "ord2ymd ?n = (year_of t, month_of t, day_of t)"
    by (simp add: year_of_def month_of_def day_of_def)
  from ord2ymd_correct[OF n this] have
    v: "1 \<le> year_of t" "year_of t \<le> 9999" "1 \<le> month_of t" "month_of t \<le> 12"
       "1 \<le> day_of t" "day_of t \<le> days_in_month (year_of t) (month_of t)"
       "ymd2ord (year_of t) (month_of t) (day_of t) = ?n" by simp_all
  have "t = (t div 86400) * 86400" using assms(3) by (simp add: mod_eq_0_iff_dvd)
  with v show ?thesis by (simp add: datetime_def)
qed

subsection \<open>Weekly windows\<close>

lemma check_invalid_date_midnight:
  "midnight t \<Longrightarrow>
   check_invalid_date now (year_of t) (month_of t) (day_of t) 0 \<longleftrightarrow> now - 5400 < t"
  by (simp add: midnight_def check_invalid_date_Inr[OF datetime_roundtrip])

lemma plus_week_midnight:
  assumes "midnight t" "plus_timedelta t (7 * 86400) = Inr e"
  shows "e = t + 604800 \<and> midnight e"
proof -
  from assms(2) have e: "e = t + 604800" "0 \<le> e" "e < max_ordinal * 86400"
    by (auto simp: plus_timedelta_def split: if_splits)
  have "(t + 604800) mod 86400 = (t + 7 * 86400) mod 86400" by simp
  also have "\<dots> = t mod 86400" by (rule mod_mult_self1)
  finally show ?thesis using e assms(1) by (simp add: midnight_def)
qed

lemma weekly_loop_tiles:
  "midnight t \<Longrightarrow> weekly_loop now days t False = Inr (ws, stop') \<Longrightarrow>
     (\<exists>mid. tiles 0 t mid ws) \<and>
     (\<forall>(s, e)\<in>set ws. s + 5400 \<le> now \<and> midnight s \<and>
        (e = s + 604800 \<and> e \<le> now \<or> e = now \<and> now < s + 604800))"
proof (induction days arbitrary: t ws)
  case Nil
  then show ?case by auto
next
  case (Cons day days)
  note ck = check_invalid_date_midnight[OF Cons.prems(1), of now]
  show ?case
  proof (cases "now - 5400 < t")
    case True
    with Cons.prems(2) ck have "weekly_loop now days t False = Inr (ws, stop')" by simp
    from Cons.IH[OF Cons.prems(1) this] show ?thesis .
  next
    case False
    with Cons.prems(2) ck obtain e where e: "plus_timedelta t (7 * 86400) = Inr e"
      by (cases "plus_timedelta t (7 * 86400)") simp_all
    from plus_week_midnight[OF Cons.prems(1) e] have ev: "e = t + 604800" "midnight e"
      by blast+
    show ?thesis
    proof (cases "now < e")
      case True
      with Cons.prems(2) ck False e have "ws = [(t, now)]" by simp
      with True False ev Cons.prems(1) show ?thesis
        by (auto intro: exI[of _ now])
    next
      case nc: False
      with Cons.prems(2) ck False e obtain ws' where
        r: "weekly_loop now days e False = Inr (ws', stop')" and w: "ws = (t, e) # ws'"
        by (cases "weekly_loop now days e False") auto
      from Cons.IH[OF ev(2) r] obtain mid where
        m: "tiles 0 e mid ws'" and
        p: "\<forall>(s, e)\<in>set ws'. s + 5400 \<le> now \<and> midnight s \<and>
              (e = s + 604800 \<and> e \<le> now \<or> e = now \<and> now < s + 604800)"
        by blast
      have "tiles 0 t mid ws" using m w ev(1) by simp
      moreover have "\<forall>(s, e)\<in>set ws. s + 5400 \<le> now \<and> midnight s \<and>
              (e = s + 604800 \<and> e \<le> now \<or> e = now \<and> now < s + 604800)"
        using p w ev(1) nc False Cons.prems(1) by auto
      ultimately show ?thesis by blast
    qed
  qed
qed

lemma year_start_midnight: "1 \<le> y \<Longrightarrow> y \<le> 9999 \<Longrightarrow> midnight (year_start y)"
proof -
  assume y: "1 \<le> y" "y \<le> 9999"
  have "days_before_year 1 \<le> days_before_year y" using y(1) by (rule days_before_year_mono)
  then have lo: "0 \<le> days_before_year y" by (simp add: days_before_year_def)
  have "days_before_year y \<le> days_before_year 9999" using y(2) by (rule days_before_year_mono)
  then have hi: "days_before_year y < 3652059" by (simp add: days_before_year_def)
  show ?thesis using lo hi by (simp add: midnight_def year_start_def max_ordinal_def)
qed

lemma weekly_tiles:
  assumes "weekly now sy ey = Inr (ws, stop')"
  shows "(\<exists>mid. tiles 0 (year_start sy) mid ws) \<and>
     (\<forall>(s, e)\<in>set ws. s + 5400 \<le> now \<and> midnight s \<and>
        (e = s + 604800 \<and> e \<le> now \<or> e = now \<and> now < s + 604800))"
proof (cases "datetime sy 1 1 0")
  case (Inl x)
  with assms show ?thesis by (simp add: weekly_def)
next
  case (Inr t)
  then have v: "1 \<le> sy" "sy \<le> 9999" and t: "t = year_start sy"
    by (simp_all add: datetime_Inr_iff month_start_1)
  from assms Inr t have
    "weekly_loop now (py_range 1 (get_number_of_days sy ey) 7) (year_start sy) False = Inr (ws, stop')"
    by (simp add: weekly_def)
  from weekly_loop_tiles[OF year_start_midnight[OF v] this] show ?thesis .
qed

subsection \<open>The list \<open>day_periods\<close>\<close>

lemma day_periods_cases:
  assumes "day_periods tr now sy ey = Inr ws"
  obtains (hourly) stop' where "tr = ''hourly''" "hourly now sy ey = Inr (ws, stop')"
  | (daily) stop' where "tr = ''daily''" "daily now sy ey = Inr (ws, stop')"
  | (weekly) stop' where "tr = ''weekly''" "weekly now sy ey = Inr (ws, stop')"
  | (monthly) stop' where "tr = ''monthly''" "monthly now sy ey = Inr (ws, stop')"
  | (yearly) stop' where "tr = ''yearly''" "yearly now sy ey = Inr (ws, stop')"
  | (other) "ws = []"
  using assms unfolding day_periods_def
  by (auto split: if_splits sum.splits prod.splits)






subsection \<open>No exception from the calendar\<close>

lemma for_loop_total:
  "(\<And>x stop. x \<in> set xs \<Longrightarrow> \<exists>r. body x stop = Inr r) \<Longrightarrow> \<exists>r. for_loop xs body stop = Inr r"
proof (induction xs arbitrary: stop)
  case Nil
  then show ?case by simp
next
  case (Cons x xs)
  from Cons.prems[of x stop] obtain ws s' brk where b: "body x stop = Inr (ws, s', brk)"
    by (metis list.set_intros(1) prod_cases3)
  show ?case
  proof (cases brk)
    case True
    with b show ?thesis by simp
  next
    case False
    from Cons.IH[of s'] Cons.prems obtain r where "for_loop xs body s' = Inr r" by auto
    with b False show ?thesis by (cases r) simp
  qed
qed

lemma inner_total: "\<exists>r. f = Inr r \<Longrightarrow> \<exists>r. inner f = Inr r"
  by (auto simp: inner_def)

lemma days_before_month_nonneg: "0 \<le> days_before_month y m"
  unfolding days_before_month_def
  by (rule sum_list_nonneg) (auto simp: days_in_month_def)

lemma datetime_nonneg: "datetime y m d h = Inr t \<Longrightarrow> 0 \<le> t"
proof -
  assume a: "datetime y m d h = Inr t"
  then have v: "1 \<le> y" "1 \<le> d" "0 \<le> h"
    and t: "t = month_start y m + (d - 1) * 86400 + h * 3600"
    by (simp_all add: datetime_Inr_iff)
  have "days_before_year 1 \<le> days_before_year y" using v(1) by (rule days_before_year_mono)
  then have "0 \<le> days_before_year y" by (simp add: days_before_year_def)
  with days_before_month_nonneg[of y m] have "0 \<le> month_start y m"
    by (simp add: month_start_def)
  with v t show ?thesis by simp
qed

lemma hourly_body_total:
  assumes "now < max_ordinal * 86400"
  shows "\<exists>r. hourly_body now y m d h stop = Inr r"
proof (cases rule: datetime_cases[of y m d h])
  case (1 t)
  show ?thesis
  proof (cases "now - 5400 < t")
    case True
    with 1 show ?thesis by (auto simp add: hourly_body_def check_invalid_date_Inr)
  next
    case False
    with datetime_nonneg[OF 1] assms have "plus_timedelta t 3600 = Inr (t + 3600)"
      by (simp add: plus_timedelta_def)
    with 1 False show ?thesis by (auto simp add: hourly_body_def check_invalid_date_Inr)
  qed
next
  case 2
  then show ?thesis by (auto simp add: hourly_body_invalid)
qed

lemma daily_body_total:
  assumes "now < (max_ordinal - 1) * 86400"
  shows "\<exists>r. daily_body now y m d stop = Inr r"
proof (cases rule: datetime_cases[of y m d 0])
  case (1 t)
  show ?thesis
  proof (cases "now - 5400 < t")
    case True
    with 1 show ?thesis by (auto simp add: daily_body_def check_invalid_date_Inr)
  next
    case False
    with datetime_nonneg[OF 1] assms have p: "plus_timedelta t 86400 = Inr (t + 86400)"
      by (simp add: plus_timedelta_def)
    from False datetime_nonneg[OF 1] assms have q: "plus_timedelta now (- 3600) = Inr (now - 3600)"
      by (simp add: plus_timedelta_def)
    from 1 False p q show ?thesis by (auto simp add: daily_body_def check_invalid_date_Inr)
  qed
next
  case 2
  then show ?thesis by (auto simp add: daily_body_invalid)
qed

lemma hourly_total:
  assumes "now < max_ordinal * 86400"
  shows "\<exists>r. hourly now sy ey = Inr r"
  unfolding hourly_def
  by (intro for_loop_total inner_total hourly_body_total assms)

lemma daily_total:
  assumes "now < (max_ordinal - 1) * 86400"
  shows "\<exists>r. daily now sy ey = Inr r"
  unfolding daily_def
  by (intro for_loop_total inner_total daily_body_total assms)

lemma day_periods_hourly:
  "day_periods ''hourly'' now sy ey = Inr ws \<longleftrightarrow> (\<exists>stop'. hourly now sy ey = Inr (ws, stop'))"
  by (auto simp: day_periods_def split: sum.splits)

lemma day_periods_daily:
  "day_periods ''daily'' now sy ey = Inr ws \<longleftrightarrow> (\<exists>stop'. daily now sy ey = Inr (ws, stop'))"
  by (auto simp: day_periods_def split: sum.splits)

lemma day_periods_weekly:
  "day_periods ''weekly'' now sy ey = Inr ws \<longleftrightarrow> (\<exists>stop'. weekly now sy ey = Inr (ws, stop'))"
  by (auto simp: day_periods_def split: sum.splits)

lemma day_periods_monthly:
  "day_periods ''monthly'' now sy ey = Inr ws \<longleftrightarrow> (\<exists>stop'. monthly now sy ey = Inr (ws, stop'))"
  by (auto simp: day_periods_def split: sum.splits)

lemma day_periods_yearly:
  "day_periods ''yearly'' now sy ey = Inr ws \<longleftrightarrow> (\<exists>stop'. yearly now sy ey = Inr (ws, stop'))"
  by (auto simp: day_periods_def split: sum.splits)

subsection \<open>The last second of a month\<close>

lemma last_second_mod:
  assumes "(e + 1) mod 86400 = (0::int)"
  shows "e mod 86400 = 86399"
proof -
  from assms obtain k where k: "e + 1 = 86400 * k" by (auto simp: mod_eq_0_iff_dvd)
  then have "e = 86400 * (k - 1) + 86399" by simp
  then show ?thesis by (intro int_mod_pos_eq[of _ _ "k - 1"]) simp_all
qed

lemma strftime_last_second:
  assumes "(e + 1) mod 86400 = 0"
  shows "drop 10 (strftime e) = ''T23:59:59Z''"
  by (simp add: strftime_def last_second_mod[OF assms] pad4_def pad2_def digit_def)

lemma month_start_mod: "month_start y m mod 86400 = 0"
  by (simp add: month_start_def)

lemma year_start_mod: "year_start y mod 86400 = 0"
  by (simp add: year_start_def)

lemma gap_not_covered:
  assumes s: "sorted_wrt (\<lambda>a b. snd a + 1 \<le> fst b) ws" and l: "\<forall>(s, e)\<in>set ws. s < (e::int)"
  shows "\<forall>a\<in>set ws. \<forall>w\<in>set ws. \<not> (fst w \<le> snd a \<and> snd a < snd w)"
proof (intro ballI notI)
  fix a w assume a: "a \<in> set ws" and w: "w \<in> set ws" and c: "fst w \<le> snd a \<and> snd a < snd w"
  from a obtain i where i: "i < length ws" "ws ! i = a" by (auto simp: in_set_conv_nth)
  from w obtain j where j: "j < length ws" "ws ! j = w" by (auto simp: in_set_conv_nth)
  from l a w have la: "fst a < snd a" and lw: "fst w < snd w" by auto
  consider "i < j" | "i = j" | "j < i" by linarith
  then show False
  proof cases
    case 1
    with s i j have "snd a + 1 \<le> fst w" by (auto simp: sorted_wrt_iff_nth_less)
    with c show False by simp
  next
    case 2
    with i j c show False by simp
  next
    case 3
    with s i j have "snd w + 1 \<le> fst a" by (auto simp: sorted_wrt_iff_nth_less)
    with c la show False by simp
  qed
qed

lemma monthly_ends:
  assumes "monthly now sy ey = Inr (ws, stop')"
  shows "\<forall>(s, e)\<in>set ws. \<exists>y m. 1 \<le> m \<and> m \<le> 12 \<and> s = month_start y m \<and>
           (e = month_start y (m + 1) - 1 \<or> e = now \<and> now < month_start y (m + 1) - 1)"
proof (rule ballI, rule prod.case_eq_if[THEN iffD2, rule_format])
  fix w assume "w \<in> set ws"
  with monthly_windows[OF assms] obtain y m where
    d: "datetime y m 1 0 = Inr (fst w)" and
    e: "snd w = month_start y (m + 1) - 1 \<and> snd w \<le> now \<or>
        snd w = now \<and> now < month_start y (m + 1) - 1"
    by (cases w) auto
  from d have "1 \<le> m" "m \<le> 12" "fst w = month_start y m" by (simp_all add: datetime_Inr_iff)
  with e show "\<exists>y m. 1 \<le> m \<and> m \<le> 12 \<and> fst w = month_start y m \<and>
           (snd w = month_start y (m + 1) - 1 \<or>
            snd w = now \<and> now < month_start y (m + 1) - 1)"
    by blast
qed

lemma yearly_ends:
  assumes "yearly now sy ey = Inr (ws, stop')"
  shows "\<forall>(s, e)\<in>set ws. \<exists>y. s = year_start y \<and>
           (e = year_start (y + 1) - 1 \<or> e = now \<and> now < year_start (y + 1) - 1)"
proof (rule ballI, rule prod.case_eq_if[THEN iffD2, rule_format])
  fix w assume "w \<in> set ws"
  with yearly_windows[OF assms] obtain y where
    d: "datetime y 1 1 0 = Inr (fst w)" and
    e: "snd w = year_start (y + 1) - 1 \<and> snd w \<le> now \<or>
        snd w = now \<and> now < year_start (y + 1) - 1"
    by (cases w) auto
  from d have "fst w = year_start y" by (simp add: datetime_Inr_iff month_start_1)
  with e show "\<exists>y. fst w = year_start y \<and>
           (snd w = year_start (y + 1) - 1 \<or> snd w = now \<and> now < year_start (y + 1) - 1)"
    by blast
qed

lemma monthly_tail:
  assumes "monthly now sy ey = Inr (ws, stop')"
  shows "\<forall>(s, e)\<in>set ws. e = now \<or> drop 10 (strftime e) = ''T23:59:59Z''"
proof (rule ballI, rule prod.case_eq_if[THEN iffD2, rule_format])
  fix w assume w: "w \<in> set ws"
  from monthly_ends[OF assms] w obtain y m where
    e: "snd w = month_start y (m + 1) - 1 \<or> snd w = now" by (cases w) fastforce
  have "(month_start y (m + 1) - 1 + 1) mod 86400 = 0" by (simp add: month_start_mod)
  from strftime_last_second[OF this] e
  show "snd w = now \<or> drop 10 (strftime (snd w)) = ''T23:59:59Z''" by metis
qed

lemma yearly_tail:
  assumes "yearly now sy ey = Inr (ws, stop')"
  shows "\<forall>(s, e)\<in>set ws. e = now \<or> drop 10 (strftime e) = ''T23:59:59Z''"
proof (rule ballI, rule prod.case_eq_if[THEN iffD2, rule_format])
  fix w assume w: "w \<in> set ws"
  from yearly_ends[OF assms] w obtain y where
    e: "snd w = year_start (y + 1) - 1 \<or> snd w = now" by (cases w) fastforce
  have "(year_start (y + 1) - 1 + 1) mod 86400 = 0" by (simp add: year_start_mod)
  from strftime_last_second[OF this] e
  show "snd w = now \<or> drop 10 (strftime (snd w)) = ''T23:59:59Z''" by metis
qed

lemma tiles_gap:
  assumes "tiles 1 lo mid ws"
  shows "successively (\<lambda>a b. snd a + 1 = fst b) ws \<and>
         (\<forall>a\<in>set ws. \<forall>w\<in>set ws. \<not> (fst w \<le> snd a \<and> snd a < snd w))"
proof -
  have "sorted_wrt (\<lambda>a b. snd a + 1 \<le> fst b) ws" by (rule tiles_sorted[OF _ assms]) simp
  from gap_not_covered[OF this tiles_start_less_end[OF assms]] tiles_successively[OF assms]
  show ?thesis by simp
qed

lemma tiles_contiguous:
  assumes "tiles 0 lo mid ws"
  shows "successively (\<lambda>a b. snd a = fst b) ws"
  using tiles_successively[OF assms] by simp

section \<open>Properties of the query builder\<close>

lemma build_query_no_stop_words:
  "build_query [] None None None None None q = CHR '' '' # q"
  by (simp add: build_query_def add_filter_def sep_def)

text \<open>
  C2, as stated, fails on its first example: with no stop words and no filter the
  builder still emits the separator that would follow the stop-word clause, so the
  result is \<open>'' opt''\<close> with a leading space, not \<open>''opt''\<close>.
\<close>

theorem build_query_empty_counterexample:
  "build_query [] None None None None None ''opt'' \<noteq> ''opt''"
  by (simp add: build_query_no_stop_words)

text \<open>
  C2 (amended): with empty stop words, no language filter, no geo filter and options
  \<open>opt\<close> the builder returns \<open>opt\<close> preceded by one separator space; with stop words
  \<open>a\<close>, \<open>b\<close>, language filter \<open>lang:en\<close>, no geo filter and options \<open>opt\<close> it returns
  \<open>("a" OR "b") lang:en opt\<close>.
\<close>

theorem build_query_examples:
  "build_query [] None None None None None ''opt'' = '' opt'' \<and>
   build_query [''a'', ''b''] (Some ''lang:en'') None None None None ''opt''
     = ''('' @ [dquote] @ ''a'' @ [dquote] @ '' OR '' @ [dquote] @ ''b'' @ [dquote] @ '') lang:en opt''"
  by (simp add: build_query_def add_filter_def sep_def)

section \<open>Properties of the fetch loop\<close>

subsection \<open>The counter \<open>n_requests_until_fail\<close>\<close>

text \<open>
  C1, as stated, fails: the counter is not a failure counter that a success resets.
  After three failed requests and one successful request for the same window it is 1.
\<close>

theorem counter_reset_counterexample:
  "n_requests_until_fail (snd (snd (retry_loop 9000000000 61 ''2022-01-01T00:00:00Z'' ''2022-01-08T00:00:00Z''
      [Raises, Raises, Raises, Responds no_tweets]
      \<lparr>sleep_duration = 5, n_requests_until_fail = 0, files = [], trace = []\<rparr>))) \<noteq> 0"
  by (simp add: run_eval)

text \<open>
  C1 (amended): the counter counts the successful requests since the last failure. When
  the loop for a window ends in success, the counter is one more than before if no
  failure was handled on the way, and exactly 1 if one was (the handler resets it to 0,
  the success adds one); in particular it is 1 after three failures and one success.
\<close>

theorem counter_after_success:
  "retry_loop ms rd s e ocs st = (Completed, ocs', st') \<Longrightarrow>
     n_requests_until_fail st' =
       (if failures (trace st') = failures (trace st) then n_requests_until_fail st + 1 else 1)"
  by (simp add: retry_loop_counter)

theorem counter_after_success_witness:
  "fst (retry_loop 9000000000 61 ''2022-01-01T00:00:00Z'' ''2022-01-08T00:00:00Z''
      [Raises, Raises, Raises, Responds no_tweets]
      \<lparr>sleep_duration = 5, n_requests_until_fail = 0, files = [], trace = []\<rparr>) = Completed \<and>
   n_requests_until_fail (snd (snd (retry_loop 9000000000 61 ''2022-01-01T00:00:00Z'' ''2022-01-08T00:00:00Z''
      [Raises, Raises, Raises, Responds no_tweets]
      \<lparr>sleep_duration = 5, n_requests_until_fail = 0, files = [], trace = []\<rparr>))) = 1"
proof -
  let ?r = "retry_loop 9000000000 61 ''2022-01-01T00:00:00Z'' ''2022-01-08T00:00:00Z''
      [Raises, Raises, Raises, Responds no_tweets]
      \<lparr>sleep_duration = 5, n_requests_until_fail = 0, files = [], trace = []\<rparr>"
  have h: "?r = (Completed, fst (snd ?r), snd (snd ?r))" by (simp add: run_eval)
  have f: "failures (trace (snd (snd ?r))) = 3" by (simp add: run_eval)
  from counter_after_success[OF h] f show ?thesis by (simp add: run_eval)
qed

subsection \<open>The sleep duration\<close>




subsection \<open>Resuming a run\<close>

text \<open>
  C6: a run started on an output directory \<open>d\<close> requests exactly the generated windows
  whose file name (\<open>response_fn\<close>: both timestamps with the colons removed, joined by
  \<open>_\<close>, suffix \<open>.response.json\<close>) is not listed in \<open>d\<close> at startup, each one or more
  times, in the order of generation (at any moment a prefix of them, all of them when
  the run completes) and reports as found exactly the others. The run completes when no
  outcome interrupts it, \<open>time.sleep\<close> accepts the retry duration and the sleep duration
  (also what as many failures as there are outcomes make of it, on a platform whose
  \<open>time.sleep\<close> refuses \<open>2 ^ 46\<close> seconds) and the remote call succeeds once for each window
  to fetch.
\<close>

theorem resume_property:
  "(fetch_all ms rd (responses_collected d) aps ocs st = (x, ocs', st') \<longrightarrow>
      (\<exists>tr ns. trace st' = trace st @ tr \<and> (\<forall>n\<in>set ns. 0 < n) \<and>
         length ns \<le> length (todo (set (listdir d)) (concat aps)) \<and>
         requested tr = repeats ns (todo (set (listdir d)) (concat aps)) \<and>
         (x = Completed \<longrightarrow>
            length ns = length (todo (set (listdir d)) (concat aps)) \<and>
            found tr = map (\<lambda>(s, e). response_fn s e) (skipped (set (listdir d)) (concat aps))))) \<and>
   (ms < 2 ^ 46 \<and> \<not> sleep_raises ms (of_int rd) \<and>
    (\<forall>k\<le>length ocs. \<not> sleep_raises ms ((plus_hundredth ^^ k) (sleep_duration st))) \<and>
    uninterrupted ocs \<and>
    length (todo (set (listdir d)) (concat aps)) \<le> successes ocs \<longrightarrow>
      fst (fetch_all ms rd (responses_collected d) aps ocs st) = Completed)"
proof (intro conjI impI)
  assume "fetch_all ms rd (responses_collected d) aps ocs st = (x, ocs', st')"
  from fetch_all_shape[OF this]
  show "\<exists>tr ns. trace st' = trace st @ tr \<and> (\<forall>n\<in>set ns. 0 < n) \<and>
         length ns \<le> length (todo (set (listdir d)) (concat aps)) \<and>
         requested tr = repeats ns (todo (set (listdir d)) (concat aps)) \<and>
         (x = Completed \<longrightarrow>
            length ns = length (todo (set (listdir d)) (concat aps)) \<and>
            found tr = map (\<lambda>(s, e). response_fn s e) (skipped (set (listdir d)) (concat aps)))"
    by (simp only: todo_collected skipped_collected)
next
  assume a: "ms < 2 ^ 46 \<and> \<not> sleep_raises ms (of_int rd) \<and>
    (\<forall>k\<le>length ocs. \<not> sleep_raises ms ((plus_hundredth ^^ k) (sleep_duration st))) \<and>
    uninterrupted ocs \<and>
    length (todo (set (listdir d)) (concat aps)) \<le> successes ocs"
  then have "length (todo (responses_collected d) (concat aps)) \<le> successes ocs"
    by (simp only: todo_collected)
  moreover from a have "sleeps_on ms (length ocs) (sleep_duration st)"
    by (simp add: sleeps_on_def)
  ultimately show "fst (fetch_all ms rd (responses_collected d) aps ocs st) = Completed"
    using a fetch_all_completes[of ms rd ocs st "responses_collected d" aps]
    by auto
qed

theorem resume_property_witness:
  "fetch_all 9000000000 61
     (responses_collected [(''2022-01-01T000000Z_2022-01-08T000000Z.response.json'', ''{}''),
                           (''notes.txt'', '''')])
     [[(''2022-01-01T00:00:00Z'', ''2022-01-08T00:00:00Z''),
       (''2022-01-08T00:00:00Z'', ''2022-01-15T00:00:00Z'')]]
     [Raises, Responds no_tweets]
     \<lparr>sleep_duration = 5, n_requests_until_fail = 0, files = [], trace = []\<rparr>
   = (Completed, [],
      snd (snd (fetch_all 9000000000 61
        (responses_collected [(''2022-01-01T000000Z_2022-01-08T000000Z.response.json'', ''{}''),
                              (''notes.txt'', '''')])
        [[(''2022-01-01T00:00:00Z'', ''2022-01-08T00:00:00Z''),
          (''2022-01-08T00:00:00Z'', ''2022-01-15T00:00:00Z'')]]
        [Raises, Responds no_tweets]
        \<lparr>sleep_duration = 5, n_requests_until_fail = 0, files = [], trace = []\<rparr>))) \<and>
   (\<exists>tr ns.
      trace (snd (snd (fetch_all 9000000000 61
        (responses_collected [(''2022-01-01T000000Z_2022-01-08T000000Z.response.json'', ''{}''),
                              (''notes.txt'', '''')])
        [[(''2022-01-01T00:00:00Z'', ''2022-01-08T00:00:00Z''),
          (''2022-01-08T00:00:00Z'', ''2022-01-15T00:00:00Z'')]]
        [Raises, Responds no_tweets]
        \<lparr>sleep_duration = 5, n_requests_until_fail = 0, files = [], trace = []\<rparr>))) = tr \<and>
      (\<forall>n\<in>set ns. 0 < n) \<and> length ns = 1 \<and>
      requested tr = repeats ns [(''2022-01-08T00:00:00Z'', ''2022-01-15T00:00:00Z'')] \<and>
      found tr = [''2022-01-01T000000Z_2022-01-08T000000Z.response.json''])"
proof -
  let ?d = "[(''2022-01-01T000000Z_2022-01-08T000000Z.response.json'', ''{}''),
             (''notes.txt'', '''')]"
  let ?aps = "[[(''2022-01-01T00:00:00Z'', ''2022-01-08T00:00:00Z''),
       (''2022-01-08T00:00:00Z'', ''2022-01-15T00:00:00Z'')]]"
  let ?st = "\<lparr>sleep_duration = 5, n_requests_until_fail = 0, files = [], trace = []\<rparr>"
  let ?r = "fetch_all 9000000000 61 (responses_collected ?d) ?aps [Raises, Responds no_tweets] ?st"
  have h: "?r = (Completed, [], snd (snd ?r))"
    by (simp add: collected_eval fn_eval1 fn_eval2 run_eval)
  have t: "todo (set (listdir ?d)) (concat ?aps) = [(''2022-01-08T00:00:00Z'', ''2022-01-15T00:00:00Z'')]"
    by (simp add: todo_def listdir_def fn_eval1 fn_eval2)
  have k: "skipped (set (listdir ?d)) (concat ?aps) = [(''2022-01-01T00:00:00Z'', ''2022-01-08T00:00:00Z'')]"
    by (simp add: skipped_def listdir_def fn_eval1 fn_eval2)
  from resume_property[of 9000000000 61 ?d ?aps "[Raises, Responds no_tweets]" ?st Completed "[]" "snd (snd ?r)"] h
  have "\<exists>tr ns. trace (snd (snd ?r)) = trace ?st @ tr \<and> (\<forall>n\<in>set ns. 0 < n) \<and>
         length ns \<le> length (todo (set (listdir ?d)) (concat ?aps)) \<and>
         requested tr = repeats ns (todo (set (listdir ?d)) (concat ?aps)) \<and>
         (Completed = Completed \<longrightarrow>
            length ns = length (todo (set (listdir ?d)) (concat ?aps)) \<and>
            found tr = map (\<lambda>(s, e). response_fn s e) (skipped (set (listdir ?d)) (concat ?aps)))"
    by blast
  then obtain tr ns where
    "trace (snd (snd ?r)) = tr" "\<forall>n\<in>set ns. 0 < n" "length ns = 1"
    "requested tr = repeats ns [(''2022-01-08T00:00:00Z'', ''2022-01-15T00:00:00Z'')]"
    "found tr = [''2022-01-01T000000Z_2022-01-08T000000Z.response.json'']"
    unfolding t k by (auto simp: fn_eval1)
  with h show ?thesis by blast
qed

subsection \<open>Writing an artifact\<close>

text \<open>
  C8, as stated, fails: the file is opened under its final name. A run killed when ten
  characters of the artifact are written leaves that fragment under the name
  \<open>2022-01-01T000000Z_2022-01-08T000000Z.response.json\<close>; the scan of the next run
  collects the name, and the next run skips the window without any request.
\<close>

theorem persist_not_atomic_counterexample:
  "fst (fetch_all 9000000000 61 {} [[(''2022-01-01T00:00:00Z'', ''2022-01-08T00:00:00Z'')]]
          [Interrupted no_tweets 10]
          \<lparr>sleep_duration = 5, n_requests_until_fail = 0, files = [], trace = []\<rparr>) = Killed \<and>
   files (snd (snd (fetch_all 9000000000 61 {} [[(''2022-01-01T00:00:00Z'', ''2022-01-08T00:00:00Z'')]]
          [Interrupted no_tweets 10]
          \<lparr>sleep_duration = 5, n_requests_until_fail = 0, files = [], trace = []\<rparr>)))
     = [(''2022-01-01T000000Z_2022-01-08T000000Z.response.json'',
         take 10 (dump ''2022-01-01T00:00:00Z'' ''2022-01-08T00:00:00Z'' no_tweets))] \<and>
   take 10 (dump ''2022-01-01T00:00:00Z'' ''2022-01-08T00:00:00Z'' no_tweets)
     \<noteq> dump ''2022-01-01T00:00:00Z'' ''2022-01-08T00:00:00Z'' no_tweets \<and>
   fetch_all 9000000000 61
     (responses_collected
        [(''2022-01-01T000000Z_2022-01-08T000000Z.response.json'',
          take 10 (dump ''2022-01-01T00:00:00Z'' ''2022-01-08T00:00:00Z'' no_tweets))])
     [[(''2022-01-01T00:00:00Z'', ''2022-01-08T00:00:00Z'')]] [Responds no_tweets]
     \<lparr>sleep_duration = 5, n_requests_until_fail = 0,
      files = [(''2022-01-01T000000Z_2022-01-08T000000Z.response.json'',
                take 10 (dump ''2022-01-01T00:00:00Z'' ''2022-01-08T00:00:00Z'' no_tweets))],
      trace = []\<rparr>
    = (Completed, [Responds no_tweets],
       \<lparr>sleep_duration = 5, n_requests_until_fail = 0,
        files = [(''2022-01-01T000000Z_2022-01-08T000000Z.response.json'',
                  take 10 (dump ''2022-01-01T00:00:00Z'' ''2022-01-08T00:00:00Z'' no_tweets))],
        trace = [Found ''2022-01-01T000000Z_2022-01-08T000000Z.response.json'']\<rparr>)"
proof -
  note l = dump_len[of "''2022-01-01T00:00:00Z''" "''2022-01-08T00:00:00Z''" no_tweets]
  have a: "fst (fetch_all 9000000000 61 {} [[(''2022-01-01T00:00:00Z'', ''2022-01-08T00:00:00Z'')]]
          [Interrupted no_tweets 10]
          \<lparr>sleep_duration = 5, n_requests_until_fail = 0, files = [], trace = []\<rparr>) = Killed"
    by simp
  have b: "files (snd (snd (fetch_all 9000000000 61 {} [[(''2022-01-01T00:00:00Z'', ''2022-01-08T00:00:00Z'')]]
          [Interrupted no_tweets 10]
          \<lparr>sleep_duration = 5, n_requests_until_fail = 0, files = [], trace = []\<rparr>)))
     = [(''2022-01-01T000000Z_2022-01-08T000000Z.response.json'',
         take 10 (dump ''2022-01-01T00:00:00Z'' ''2022-01-08T00:00:00Z'' no_tweets))]"
    using l by (simp add: fn_eval1 write_file_def min_def)
  have c: "take 10 (dump ''2022-01-01T00:00:00Z'' ''2022-01-08T00:00:00Z'' no_tweets)
     \<noteq> dump ''2022-01-01T00:00:00Z'' ''2022-01-08T00:00:00Z'' no_tweets"
    using l by (rule take_less_neq)
  have m: "''2022-01-01T000000Z_2022-01-08T000000Z.response.json''
     \<in> responses_collected
          [(''2022-01-01T000000Z_2022-01-08T000000Z.response.json'',
            take 10 (dump ''2022-01-01T00:00:00Z'' ''2022-01-08T00:00:00Z'' no_tweets))]"
    using response_fn_endswith[of "''2022-01-01T00:00:00Z''" "''2022-01-08T00:00:00Z''"]
    by (simp add: fn_eval1 responses_collected_def listdir_def)
  have d: "fetch_all 9000000000 61
     (responses_collected
        [(''2022-01-01T000000Z_2022-01-08T000000Z.response.json'',
          take 10 (dump ''2022-01-01T00:00:00Z'' ''2022-01-08T00:00:00Z'' no_tweets))])
     [[(''2022-01-01T00:00:00Z'', ''2022-01-08T00:00:00Z'')]] [Responds no_tweets]
     \<lparr>sleep_duration = 5, n_requests_until_fail = 0,
      files = [(''2022-01-01T000000Z_2022-01-08T000000Z.response.json'',
                take 10 (dump ''2022-01-01T00:00:00Z'' ''2022-01-08T00:00:00Z'' no_tweets))],
      trace = []\<rparr>
    = (Completed, [Responds no_tweets],
       \<lparr>sleep_duration = 5, n_requests_until_fail = 0,
        files = [(''2022-01-01T000000Z_2022-01-08T000000Z.response.json'',
                  take 10 (dump ''2022-01-01T00:00:00Z'' ''2022-01-08T00:00:00Z'' no_tweets))],
        trace = [Found ''2022-01-01T000000Z_2022-01-08T000000Z.response.json'']\<rparr>)"
    using m by (simp add: fn_eval1)
  from a b c d show ?thesis by blast
qed

text \<open>
  C8 (amended): persist is not atomic. The artifact is written directly under its final
  \<open>.response.json\<close> name, so a write cut off after any number \<open>k\<close> of characters leaves
  the first \<open>k\<close> characters under that name; the scan of a later run collects the name
  whatever the content, and that run skips the window.
\<close>

theorem persist_partial_is_collected:
  "response_fn s e \<in> responses_collected (files (persist k s e r st)) \<and>
   map_of (files (persist k s e r st)) (response_fn s e) = Some (take k (dump s e r)) \<and>
   fetch_periods ms rd (responses_collected (files (persist k s e r st))) [(s, e)] ocs st2 =
     (Completed, ocs, st2\<lparr>trace := trace st2 @ [Found (response_fn s e)]\<rparr>)"
proof -
  have a: "response_fn s e \<in> responses_collected (files (persist k s e r st))"
    by (simp add: response_fn_collected listdir_def write_file_def)
  have b: "map_of (files (persist k s e r st)) (response_fn s e) = Some (take k (dump s e r))"
    by (simp add: write_file_def)
  have c: "fetch_periods ms rd (responses_collected (files (persist k s e r st))) [(s, e)] ocs st2 =
     (Completed, ocs, st2\<lparr>trace := trace st2 @ [Found (response_fn s e)]\<rparr>)"
    using a by (simp only: fetch_periods.simps if_True)
  from a b c show ?thesis by blast
qed

section \<open>Properties of the period generator\<close>

subsection \<open>The order of the windows\<close>



subsection \<open>The distance to the clock\<close>



subsection \<open>Dates that the calendar does not have\<close>

text \<open>
  C9: for the hourly and the daily granularity, every window starts at an hour that the
  calendar has: the start is \<open>datetime year month day hour\<close> for a year of the range, a
  month from 1 to 12, a day of that month and an hour from 0 to 23. The combinations
  that are no date are skipped without an error: in a run of the program (a start year
  from 2006 on) whose clock is more than a day before the end of the year 9999 the
  generator returns a list.
\<close>

theorem windows_on_calendar:
  "(tr = ''hourly'' \<or> tr = ''daily'' \<longrightarrow>
      (2006 \<le> sy \<and> now < (max_ordinal - 1) * 86400 \<longrightarrow>
         (\<exists>ws. day_periods tr now sy ey = Inr ws)) \<and>
      (\<forall>ws. day_periods tr now sy ey = Inr ws \<longrightarrow>
         (\<forall>(s, e)\<in>set ws. \<exists>year month day hour.
            sy \<le> year \<and> year \<le> ey \<and> 1 \<le> month \<and> month \<le> 12 \<and>
            1 \<le> day \<and> day \<le> days_in_month year month \<and> 0 \<le> hour \<and> hour \<le> 23 \<and>
            datetime year month day hour = Inr s)))"
proof (intro impI conjI allI)
  assume tr: "tr = ''hourly'' \<or> tr = ''daily''"
    and "2006 \<le> sy \<and> now < (max_ordinal - 1) * 86400"
  then have n: "now < (max_ordinal - 1) * 86400" by simp
  then have n': "now < max_ordinal * 86400" by (simp add: max_ordinal_def)
  from tr show "\<exists>ws. day_periods tr now sy ey = Inr ws"
  proof
    assume "tr = ''hourly''"
    with hourly_total[OF n', of sy ey] show ?thesis
      by (auto simp: day_periods_hourly)
  next
    assume "tr = ''daily''"
    with daily_total[OF n, of sy ey] show ?thesis
      by (auto simp: day_periods_daily)
  qed
next
  fix ws
  assume tr: "tr = ''hourly'' \<or> tr = ''daily''" and d: "day_periods tr now sy ey = Inr ws"
  from tr show "\<forall>(s, e)\<in>set ws. \<exists>year month day hour.
            sy \<le> year \<and> year \<le> ey \<and> 1 \<le> month \<and> month \<le> 12 \<and>
            1 \<le> day \<and> day \<le> days_in_month year month \<and> 0 \<le> hour \<and> hour \<le> 23 \<and>
            datetime year month day hour = Inr s"
  proof
    assume "tr = ''hourly''"
    with d obtain stop' where "hourly now sy ey = Inr (ws, stop')"
      by (auto simp: day_periods_hourly)
    from hourly_windows[OF this] show ?thesis
      by (fastforce simp: datetime_Inr_iff)
  next
    assume "tr = ''daily''"
    with d obtain stop' where "daily now sy ey = Inr (ws, stop')"
      by (auto simp: day_periods_daily)
    from daily_windows[OF this] show ?thesis
      by (fastforce simp: datetime_Inr_iff)
  qed
qed

lemma ev_daily:
  "day_periods ''daily'' 63776764800 2022 2022 =
     Inr [(63776592000, 63776678400), (63776678400, 63776764800)]"
  by code_simp

theorem windows_on_calendar_witness:
  "(2006::int) \<le> 2022 \<and> 63776764800 < (max_ordinal - 1) * 86400 \<and>
   day_periods ''daily'' 63776764800 2022 2022 =
     Inr [(63776592000, 63776678400), (63776678400, 63776764800)] \<and>
   (\<exists>year month day hour.
      2022 \<le> year \<and> year \<le> 2022 \<and> 1 \<le> month \<and> month \<le> 12 \<and>
      1 \<le> day \<and> day \<le> days_in_month year month \<and> 0 \<le> hour \<and> hour \<le> 23 \<and>
      datetime year month day hour = Inr 63776592000) \<and>
   (\<exists>year month day hour.
      2022 \<le> year \<and> year \<le> 2022 \<and> 1 \<le> month \<and> month \<le> 12 \<and>
      1 \<le> day \<and> day \<le> days_in_month year month \<and> 0 \<le> hour \<and> hour \<le> 23 \<and>
      datetime year month day hour = Inr 63776678400)"
proof -
  have n: "63776764800 < (max_ordinal - 1) * 86400" by (simp add: max_ordinal_def)
  have h: "day_periods ''daily'' 63776764800 2022 2022 =
     Inr [(63776592000, 63776678400), (63776678400, 63776764800)]"
    by (rule ev_daily)
  have m: "''daily'' = ''hourly'' \<or> ''daily'' = ''daily''" by simp
  have y: "(2006::int) \<le> 2022" by simp
  note q = windows_on_calendar[of "''daily''" 2022 63776764800 2022, THEN mp, OF m]
  note q1 = q[THEN conjunct1, THEN mp, OF conjI, OF y n]
  note q2 = q[THEN conjunct2, THEN spec, THEN mp, OF h]
  from q1 have t: "\<exists>ws. day_periods ''daily'' 63776764800 2022 2022 = Inr ws" .
  from q2 have w1: "\<exists>year month day hour.
      2022 \<le> year \<and> year \<le> 2022 \<and> 1 \<le> month \<and> month \<le> 12 \<and>
      1 \<le> day \<and> day \<le> days_in_month year month \<and> 0 \<le> hour \<and> hour \<le> 23 \<and>
      datetime year month day hour = Inr 63776592000"
    by simp
  from q2 have w2: "\<exists>year month day hour.
      2022 \<le> year \<and> year \<le> 2022 \<and> 1 \<le> month \<and> month \<le> 12 \<and>
      1 \<le> day \<and> day \<le> days_in_month year month \<and> 0 \<le> hour \<and> hour \<le> 23 \<and>
      datetime year month day hour = Inr 63776678400"
    by simp
  show ?thesis
    apply (intro conjI)
        apply (rule y)
       apply (rule n)
      apply (rule h)
     apply (rule w1)
    apply (rule w2)
    done
qed

subsection \<open>The ends of the windows\<close>

text \<open>
  C10: for a start year from 2006 on and a stop year not before it. A monthly window
  starts with a month and a yearly window with a year; its end is the last second of
  that month or year, one second before the next one starts, or else it is clipped to
  \<open>now\<close>. So every unclipped end is rendered \<open>...T23:59:59Z\<close>, every window but the last
  ends one second before the next window starts, and that second lies in no window
  read as half-open. For the hourly, daily and weekly granularities every window but
  the last ends where the next one starts.
\<close>

theorem period_ends:
  assumes "2006 \<le> sy" "sy \<le> ey" "day_periods tr now sy ey = Inr ws"
  shows "(tr = ''monthly'' \<longrightarrow>
            (\<forall>(s, e)\<in>set ws. \<exists>y m. 1 \<le> m \<and> m \<le> 12 \<and> s = month_start y m \<and>
               (e = month_start y (m + 1) - 1 \<or> e = now \<and> now < month_start y (m + 1) - 1))) \<and>
         (tr = ''yearly'' \<longrightarrow>
            (\<forall>(s, e)\<in>set ws. \<exists>y. s = year_start y \<and>
               (e = year_start (y + 1) - 1 \<or> e = now \<and> now < year_start (y + 1) - 1))) \<and>
         (tr = ''monthly'' \<or> tr = ''yearly'' \<longrightarrow>
            (\<forall>(s, e)\<in>set ws. e = now \<or> drop 10 (strftime e) = ''T23:59:59Z'') \<and>
            successively (\<lambda>a b. snd a + 1 = fst b) ws \<and>
            (\<forall>a\<in>set ws. \<forall>w\<in>set ws. \<not> (fst w \<le> snd a \<and> snd a < snd w))) \<and>
         (tr = ''hourly'' \<or> tr = ''daily'' \<or> tr = ''weekly'' \<longrightarrow>
            successively (\<lambda>a b. snd a = fst b) ws)"
proof -
  from assms(1) have sy1: "1 \<le> sy" by simp
  from assms(3) show ?thesis
  proof (cases rule: day_periods_cases)
    case (hourly stop')
    from hourly_tiles[OF sy1 assms(2) hourly(2)] obtain mid where
      "tiles 0 (year_start (min sy 10000)) mid ws" by blast
    from tiles_contiguous[OF this] hourly(1) show ?thesis by simp
  next
    case (daily stop')
    from daily_tiles[OF sy1 assms(2) daily(2)] obtain mid where
      "tiles 0 (year_start (min sy 10000)) mid ws" by blast
    from tiles_contiguous[OF this] daily(1) show ?thesis by simp
  next
    case (weekly stop')
    from weekly_tiles[OF weekly(2)] obtain mid where
      "tiles 0 (year_start sy) mid ws" by blast
    from tiles_contiguous[OF this] weekly(1) show ?thesis by simp
  next
    case (monthly stop')
    from monthly_tiles[OF sy1 assms(2) monthly(2)] obtain mid where
      "tiles 1 (year_start (min sy 10000)) mid ws" by blast
    from tiles_gap[OF this] monthly_ends[OF monthly(2)] monthly_tail[OF monthly(2)] monthly(1)
    show ?thesis by simp
  next
    case (yearly stop')
    from yearly_tiles[OF sy1 assms(2) yearly(2)] obtain mid where
      "tiles 1 (year_start (min sy 10000)) mid ws" by blast
    from tiles_gap[OF this] yearly_ends[OF yearly(2)] yearly_tail[OF yearly(2)] yearly(1)
    show ?thesis by simp
  next
    case other
    then show ?thesis by simp
  qed
qed

theorem period_ends_witness:
  "(2006::int) \<le> 2022 \<and> (2022::int) \<le> 2022 \<and>
   day_periods ''monthly'' 63781905600 2022 2022 =
     Inr [(63776592000, 63779270399), (63779270400, 63781689599), (63781689600, 63781905600)] \<and>
   successively (\<lambda>a b. snd a + 1 = fst b)
     [(63776592000, 63779270399), (63779270400, 63781689599), (63781689600, 63781905600::int)] \<and>
   drop 10 (strftime 63779270399) = ''T23:59:59Z'' \<and>
   drop 10 (strftime 63781689599) = ''T23:59:59Z''"
proof -
  have a: "(2006::int) \<le> 2022" and b: "(2022::int) \<le> 2022" by simp_all
  have h: "day_periods ''monthly'' 63781905600 2022 2022 =
     Inr [(63776592000, 63779270399), (63779270400, 63781689599), (63781689600, 63781905600)]"
    by code_simp
  have m: "''monthly'' = ''monthly'' \<or> ''monthly'' = ''yearly''" by simp
  note q = period_ends[OF a b h, THEN conjunct2, THEN conjunct2, THEN conjunct1, THEN mp, OF m]
  from q[THEN conjunct1] have e1: "drop 10 (strftime 63779270399) = ''T23:59:59Z''"
    and e2: "drop 10 (strftime 63781689599) = ''T23:59:59Z''"
    by simp_all
  show ?thesis
    apply (intro conjI)
         apply (rule a)
        apply (rule b)
       apply (rule h)
      apply (rule q[THEN conjunct2, THEN conjunct1])
     apply (rule e1)
    apply (rule e2)
    done
qed

section \<open>The guard on the length of the query\<close>

text \<open>
  C5: when the query string is longer than 1024 characters, the run issues no request
  and writes no file: the output directory and the outcomes of the requests are left
  as they were. With valid years the only thing the run does is to report the
  condition, and it ends normally.
\<close>

theorem too_long_query_no_fetch:
  assumes "length (build_query (stop_words a) (lang a) (place a) (country a)
                     (point_radius a) (coords a) (query_options a)) > 1024"
    and "main ms a now d ocs = (x, ocs', st')"
  shows "requested (trace st') = [] \<and> written (trace st') = [] \<and> files st' = d \<and> ocs' = ocs \<and>
         (2006 \<le> start_year a \<and> start_year a \<le> stop_year a \<longrightarrow>
            x = Completed \<and> trace st' = [Query_Too_Long])"
  using assms by (auto simp: main_def initial_state_def Let_def split: if_splits)

theorem too_long_query_no_fetch_witness:
  "length (build_query [] None None None None None (replicate 1025 CHR ''x'')) > 1024 \<and>
   main 9000000000 \<lparr>stop_words = [], lang = None, place = None, country = None, point_radius = None,
         coords = None, query_options = replicate 1025 CHR ''x'', time_range = ''daily'',
         start_year = 2022, stop_year = 2022, arg_sleep_duration = 5,
         arg_retry_duration = 61\<rparr> 63776764800 [] [Responds no_tweets]
     = (Completed, [Responds no_tweets],
        \<lparr>sleep_duration = 5, n_requests_until_fail = 0, files = [],
         trace = [Query_Too_Long]\<rparr>) \<and>
   requested [Query_Too_Long] = [] \<and> written [Query_Too_Long] = []"
proof -
  let ?a = "\<lparr>stop_words = [], lang = None, place = None, country = None, point_radius = None,
         coords = None, query_options = replicate 1025 CHR ''x'', time_range = ''daily'',
         start_year = 2022, stop_year = 2022, arg_sleep_duration = 5,
         arg_retry_duration = 61\<rparr>"
  have l: "length (build_query (stop_words ?a) (lang ?a) (place ?a) (country ?a)
                     (point_radius ?a) (coords ?a) (query_options ?a)) > 1024"
    by (simp add: build_query_no_stop_words)
  have m: "main 9000000000 ?a 63776764800 [] [Responds no_tweets]
     = (Completed, [Responds no_tweets],
        \<lparr>sleep_duration = 5, n_requests_until_fail = 0, files = [],
         trace = [Query_Too_Long]\<rparr>)"
    using l by (simp add: main_def initial_state_def)
  from too_long_query_no_fetch[OF l m] l m show ?thesis by simp
qed

end
